theory Spec2Isabelle
  imports Main "HOL-Library.Sublist"
begin

section \<open>The Spaces client of turbo: cli/internal/runsummary/spaces.go\<close>

text \<open>
  The file reports a run to the Spaces service: one POST creates the run, one POST per task
  and a final PATCH follow. Requests are handed over a channel to eight goroutines. The
  embedding has three layers: the wire payloads and their JSON form, the sequential
  function \<open>makeRequest\<close>, and the goroutines as an interleaving of atomic steps.
\<close>

subsection \<open>Values of the Go runtime and of encoding/json\<close>

type_synonym bytes = string
type_synonym go_error = string

text \<open>
  A JSON document as \<open>json.Marshal\<close> emits it, by its structure. An object keeps the order
  of its members, which is the order of the struct's fields.
\<close>

datatype json =
    JString string
  | JNumber int
  | JBool bool
  | JArray "json list"
  | JObject "(string \<times> json) list"
  | JNull

text \<open>
  The tag option \<open>omitempty\<close> leaves a member out when the field holds the zero value of
  its type: 0, the empty string, a slice of length 0. A field of struct type is never empty.
\<close>

definition omitempty_int :: "string \<Rightarrow> int \<Rightarrow> (string \<times> json) list" where
  "omitempty_int k n = (if n = 0 then [] else [(k, JNumber n)])"

definition omitempty_string :: "string \<Rightarrow> string \<Rightarrow> (string \<times> json) list" where
  "omitempty_string k v = (if v = [] then [] else [(k, JString v)])"

definition omitempty_strings :: "string \<Rightarrow> string list \<Rightarrow> (string \<times> json) list" where
  "omitempty_strings k vs = (if vs = [] then [] else [(k, JArray (map JString vs))])"

fun members :: "json \<Rightarrow> (string \<times> json) list" where
  "members (JObject kvs) = kvs"
| "members _ = []"

definition keys :: "json \<Rightarrow> string list" where
  "keys j = map fst (members j)"

definition member :: "json \<Rightarrow> string \<Rightarrow> json option" where
  "member j k = map_of (members j) k"

text \<open>A channel on which nothing is ever sent is open or closed.\<close>

datatype chan = Open | Closed

subsection \<open>The summaries the payloads are built from\<close>

text \<open>
  The types \<open>Meta\<close>, \<open>RunSummary\<close> and \<open>TaskSummary\<close> are declared in other files of the
  package; the records hold the fields spaces.go reads. A \<open>time.Time\<close> is held by its
  reading in Unix milliseconds, the only thing spaces.go takes from it, and the integers
  are only copied, never computed with, so they are \<open>int\<close>. \<open>endTime\<close> holds what the
  method \<open>endTime()\<close> returns and \<open>GetLogs\<close> what \<open>GetLogs()\<close> returns. \<open>exitCode\<close> of a
  task is a pointer in Go: \<open>None\<close> is nil.
\<close>

record executionSummary =
  startedAt :: int
  endedAt :: int
  exitCode :: int

record scmState =
  Branch :: string
  Sha :: string

record RunSummary =
  ExecutionSummary :: executionSummary
  SCM :: scmState
  User :: string
  TurboVersion :: string

record Meta =
  RunSummary :: RunSummary
  spaceID :: string
  synthesizedCommand :: string
  repoPath :: string

record TaskCacheSummary =
  Local :: bool
  Remote :: bool
  Status :: string
  Source :: string
  TimeSaved :: int

record TaskExecutionSummary =
  startAt :: int
  endTime :: int
  exitCode :: "int option"

record TaskSummary =
  TaskID :: string
  Task :: string
  Package :: string
  Hash :: string
  CacheSummary :: TaskCacheSummary
  Execution :: TaskExecutionSummary
  Dependencies :: "string list"
  Dependents :: "string list"
  GetLogs :: bytes

subsection \<open>The wire payloads\<close>

record spacesClientSummary =
  ID :: string
  Name :: string
  Version :: string

record spacesRunPayload =
  StartTime :: int
  EndTime :: int
  Status :: string
  Type :: string
  ExitCode :: int
  Command :: string
  RepositoryPath :: string
  Context :: string
  Client :: spacesClientSummary
  GitBranch :: string
  GitSha :: string
  User :: string

text \<open>
  \<open>spacesCacheStatus\<close> has the fields of \<open>TaskCacheSummary\<close>, so that the Go conversion
  \<open>spacesCacheStatus(cacheSummary)\<close> copies them; only the JSON tags differ.
\<close>

type_synonym spacesCacheStatus = TaskCacheSummary

record spacesTask =
  Key :: string
  Name :: string
  Workspace :: string
  Hash :: string
  StartTime :: int
  EndTime :: int
  Cache :: spacesCacheStatus
  ExitCode :: int
  Dependencies :: "string list"
  Dependents :: "string list"
  Logs :: string

text \<open>The JSON of each struct, read off its field tags.\<close>

definition json_spacesClientSummary :: "spacesClientSummary \<Rightarrow> json" where
  "json_spacesClientSummary s =
     JObject [(''id'', JString (spacesClientSummary.ID s)),
              (''name'', JString (spacesClientSummary.Name s)),
              (''version'', JString (Version s))]"

definition json_spacesRunPayload :: "spacesRunPayload \<Rightarrow> json" where
  "json_spacesRunPayload p =
     JObject (omitempty_int ''startTime'' (spacesRunPayload.StartTime p)
            @ omitempty_int ''endTime'' (spacesRunPayload.EndTime p)
            @ omitempty_string ''status'' (spacesRunPayload.Status p)
            @ omitempty_string ''type'' (Type p)
            @ omitempty_int ''exitCode'' (spacesRunPayload.ExitCode p)
            @ omitempty_string ''command'' (Command p)
            @ omitempty_string ''repositoryPath'' (RepositoryPath p)
            @ omitempty_string ''context'' (Context p)
            @ [(''client'', json_spacesClientSummary (Client p)),
               (''gitBranch'', JString (GitBranch p)),
               (''gitSha'', JString (GitSha p))]
            @ omitempty_string ''originationUser'' (spacesRunPayload.User p))"

definition json_spacesCacheStatus :: "spacesCacheStatus \<Rightarrow> json" where
  "json_spacesCacheStatus s =
     JObject ([(''status'', JString (TaskCacheSummary.Status s))]
            @ omitempty_string ''source'' (Source s)
            @ [(''timeSaved'', JNumber (TimeSaved s))])"

definition json_spacesTask :: "spacesTask \<Rightarrow> json" where
  "json_spacesTask t =
     JObject (omitempty_string ''key'' (Key t)
            @ omitempty_string ''name'' (spacesTask.Name t)
            @ omitempty_string ''workspace'' (Workspace t)
            @ omitempty_string ''hash'' (spacesTask.Hash t)
            @ omitempty_int ''startTime'' (spacesTask.StartTime t)
            @ omitempty_int ''endTime'' (spacesTask.EndTime t)
            @ [(''cache'', json_spacesCacheStatus (Cache t))]
            @ omitempty_int ''exitCode'' (spacesTask.ExitCode t)
            @ omitempty_strings ''dependencies'' (spacesTask.Dependencies t)
            @ omitempty_strings ''dependents'' (spacesTask.Dependents t)
            @ [(''log'', JString (Logs t))])"

text \<open>
  The field \<open>body\<close> of a request is an \<open>interface{}\<close>. The requests of this file put a
  run payload or a task payload there; any other Go value is given by what
  \<open>json.Marshal\<close> returns for it: an error text or a document.
\<close>

datatype body =
    RunPayload spacesRunPayload
  | TaskPayload spacesTask
  | OtherValue "go_error + json"

fun json_Marshal :: "body \<Rightarrow> go_error + json" where
  "json_Marshal (RunPayload p) = Inr (json_spacesRunPayload p)"
| "json_Marshal (TaskPayload t) = Inr (json_spacesTask t)"
| "json_Marshal (OtherValue r) = r"

subsection \<open>The payload builders\<close>

text \<open>\<open>ci\<close> is what \<open>ci.Constant()\<close> returns: the name of the CI vendor, or the empty string.\<close>

definition newSpacesRunCreatePayload :: "string \<Rightarrow> Meta \<Rightarrow> spacesRunPayload" where
  "newSpacesRunCreatePayload ci rsm =
     (let startTime = startedAt (ExecutionSummary (RunSummary rsm));
          context = (if ci \<noteq> [] then ci else ''LOCAL'')
      in \<lparr> spacesRunPayload.StartTime = startTime,
           EndTime = 0,
           Status = ''running'',
           Type = ''TURBO'',
           ExitCode = 0,
           Command = synthesizedCommand rsm,
           RepositoryPath = repoPath rsm,
           Context = context,
           Client = \<lparr> spacesClientSummary.ID = ''turbo'', Name = ''Turbo'',
                      Version = TurboVersion (RunSummary rsm) \<rparr>,
           GitBranch = Branch (SCM (RunSummary rsm)),
           GitSha = Sha (SCM (RunSummary rsm)),
           User = RunSummary.User (RunSummary rsm) \<rparr>)"

definition newSpacesDonePayload :: "RunSummary \<Rightarrow> spacesRunPayload" where
  "newSpacesDonePayload runsummary =
     (let endTime = endedAt (ExecutionSummary runsummary)
      in \<lparr> spacesRunPayload.StartTime = 0,
           EndTime = endTime,
           Status = ''completed'',
           Type = [],
           ExitCode = executionSummary.exitCode (ExecutionSummary runsummary),
           Command = [],
           RepositoryPath = [],
           Context = [],
           Client = \<lparr> spacesClientSummary.ID = [], Name = [], Version = [] \<rparr>,
           GitBranch = [],
           GitSha = [],
           User = [] \<rparr>)"

text \<open>
  \<open>newSpacesTaskPayload\<close> dereferences the exit code of the task: on a nil pointer the Go
  runtime panics, which is the result \<open>None\<close>.
\<close>

definition newSpacesTaskPayload :: "TaskSummary \<Rightarrow> spacesTask option" where
  "newSpacesTaskPayload taskSummary =
     (let startTime = startAt (Execution taskSummary);
          endTime = TaskExecutionSummary.endTime (Execution taskSummary)
      in case TaskExecutionSummary.exitCode (Execution taskSummary) of
           None \<Rightarrow> None
         | Some code \<Rightarrow>
             Some \<lparr> Key = TaskID taskSummary,
                    Name = Task taskSummary,
                    Workspace = Package taskSummary,
                    Hash = TaskSummary.Hash taskSummary,
                    StartTime = startTime,
                    EndTime = endTime,
                    Cache = CacheSummary taskSummary,
                    ExitCode = code,
                    Dependencies = TaskSummary.Dependencies taskSummary,
                    Dependents = TaskSummary.Dependents taskSummary,
                    Logs = GetLogs taskSummary \<rparr>)"

subsection \<open>The client, its run and its requests\<close>

text \<open>
  \<open>created\<close> is the channel that signals that the first request is done. The code only
  closes it and receives from it, so its state is \<open>Open\<close> or \<open>Closed\<close>.
\<close>

record spaceRun =
  ID :: string
  URL :: string
  created :: chan

text \<open>
  The transport behind \<open>c.api\<close> is outside this file. \<open>'w\<close> is the state of the network
  and of the server; a call reads and changes it and returns the response (\<open>None\<close> is a
  nil slice) and the error (\<open>None\<close> is nil).
\<close>

record 'w APIClient =
  IsLinked :: "'w \<Rightarrow> bool"
  JSONPost :: "string \<Rightarrow> json \<Rightarrow> 'w \<Rightarrow> (bytes option \<times> go_error option) \<times> 'w"
  JSONPatch :: "string \<Rightarrow> json \<Rightarrow> 'w \<Rightarrow> (bytes option \<times> go_error option) \<times> 'w"

text \<open>
  The struct \<open>spacesClient\<close>. \<open>requests\<close> is an unbuffered channel: it holds no request,
  a send meets a receive, so its state is \<open>Open\<close> or \<open>Closed\<close>. \<open>wg\<close> is the counter of
  the wait group. \<open>net\<close> is the state that the transport works on. The field \<open>ui\<close> is
  never read.
\<close>

record 'w spacesClient =
  rsm :: Meta
  requests :: chan
  errors :: "go_error list"
  api :: "'w APIClient"
  run :: spaceRun
  wg :: nat
  net :: 'w

text \<open>
  The struct \<open>spaceRequest\<close>. Both function fields are closures over the client.
  \<open>makeURL\<close> returns an error, or the URL that the Go closure stores in \<open>self.url\<close>;
  \<open>makeRequest\<close> below does the store. \<open>onDone\<close> gets the response and works on the client
  it closes over; its request argument is dropped, as the one handler of the file ignores it.
\<close>

record 'w spaceRequest =
  "method" :: string
  url :: string
  makeURL :: "(spaceRun \<Rightarrow> go_error + string) option"
  body :: body
  onDone :: "(bytes option \<Rightarrow> 'w spacesClient \<Rightarrow> 'w spacesClient) option"

text \<open>\<open>fmt.Errorf("[%s] %s: %s", req.method, req.url, msg)\<close>\<close>

definition error :: "'w spaceRequest \<Rightarrow> string \<Rightarrow> go_error" where
  "error req msg = ''['' @ method req @ ''] '' @ url req @ '': '' @ msg"

definition record_error :: "go_error \<Rightarrow> 'w spacesClient \<Rightarrow> 'w spacesClient" where
  "record_error err c = c\<lparr>errors := errors c @ [err]\<rparr>"

text \<open>
  \<open>makeRequest\<close>, in the order of the source: the lazy URL, the space id, the link, the
  method, the payload, the call, the handler. \<open>record_error\<close> is
  \<open>c.errors = append(c.errors, err)\<close>. The last branch of the choice of the call is the
  one the source has after \<open>POST\<close> and \<open>PATCH\<close>: it records an error and does not return.
\<close>

definition makeRequest :: "'w spaceRequest \<Rightarrow> 'w spacesClient \<Rightarrow> 'w spacesClient" where
  "makeRequest req0 c =
     (case (case makeURL req0 of
              None \<Rightarrow> Inr req0
            | Some f \<Rightarrow> (case f (run c) of Inl err \<Rightarrow> Inl err | Inr u \<Rightarrow> Inr (req0\<lparr>url := u\<rparr>))) of
        Inl err \<Rightarrow> record_error err c
      | Inr req \<Rightarrow>
          if spaceID (rsm c) = [] then record_error (error req ''No spaceID found'') c
          else if \<not> IsLinked (api c) (net c) then
            record_error
              (error req ''Repo is not linked to a Space. Run `turbo link --target=spaces` first'') c
          else if method req \<noteq> ''POST'' \<and> method req \<noteq> ''PATCH'' then
            record_error (error req (''Unsupported method '' @ method req)) c
          else
            (case json_Marshal (body req) of
               Inl err \<Rightarrow> record_error (error req (''Failed to create payload: '' @ err)) c
             | Inr payload \<Rightarrow>
                 (let (resp, reqErr, c1) =
                        (if method req = ''POST'' then
                           (let (r, w) = JSONPost (api c) (url req) payload (net c)
                            in (fst r, snd r, c\<lparr>net := w\<rparr>))
                         else if method req = ''PATCH'' then
                           (let (r, w) = JSONPatch (api c) (url req) payload (net c)
                            in (fst r, snd r, c\<lparr>net := w\<rparr>))
                         else (None, None, record_error (error req ''Unsupported request method'') c))
                  in case reqErr of
                       Some e \<Rightarrow> record_error (error req e) c1
                     | None \<Rightarrow> (case onDone req of None \<Rightarrow> c1 | Some f \<Rightarrow> f resp c1))))"

subsection \<open>The requests of startRun, postTask and finishRun\<close>

text \<open>
  What the standard library and the environment decide: the name \<open>ci.Constant()\<close>
  returns, and \<open>json.Unmarshal(response, c.run)\<close>, which returns the run with the fields
  it has decoded and an error or nil. It cannot reach the unexported field \<open>created\<close>.
\<close>

record externals =
  ci_Constant :: string
  json_Unmarshal :: "bytes \<Rightarrow> spaceRun \<Rightarrow> spaceRun \<times> go_error option"

definition startRun_onDone ::
  "externals \<Rightarrow> bytes option \<Rightarrow> 'w spacesClient \<Rightarrow> 'w spacesClient" where
  "startRun_onDone ext response c =
     (case response of
        None \<Rightarrow> c
      | Some r \<Rightarrow>
          (let (decoded, err) = json_Unmarshal ext r (run c);
               c1 = c\<lparr>run := (run c)\<lparr>spaceRun.ID := spaceRun.ID decoded, URL := URL decoded\<rparr>\<rparr>
           in case err of
                None \<Rightarrow> c1
              | Some e \<Rightarrow> record_error (''Error unmarshaling response: '' @ e) c1))"

definition startRun_request :: "externals \<Rightarrow> 'w spacesClient \<Rightarrow> 'w spaceRequest" where
  "startRun_request ext c =
     \<lparr> method = ''POST'',
       url = ''/v0/spaces/'' @ spaceID (rsm c) @ ''/runs'',
       makeURL = None,
       body = RunPayload (newSpacesRunCreatePayload (ci_Constant ext) (rsm c)),
       onDone = Some (startRun_onDone ext) \<rparr>"

definition postTask_makeURL :: "'w spacesClient \<Rightarrow> TaskSummary \<Rightarrow> spaceRun \<Rightarrow> go_error + string" where
  "postTask_makeURL c task r =
     (if spaceRun.ID r = [] then Inl (''No Run ID found to post task '' @ TaskID task)
      else Inr (''/v0/spaces/'' @ spaceID (rsm c) @ ''/runs/'' @ spaceRun.ID r @ ''/tasks''))"

text \<open>\<open>None\<close>: building the body panics, before anything is sent.\<close>

definition postTask_request :: "'w spacesClient \<Rightarrow> TaskSummary \<Rightarrow> 'w spaceRequest option" where
  "postTask_request c task =
     (case newSpacesTaskPayload task of
        None \<Rightarrow> None
      | Some payload \<Rightarrow>
          Some \<lparr> method = ''POST'',
                 url = [],
                 makeURL = Some (postTask_makeURL c task),
                 body = TaskPayload payload,
                 onDone = None \<rparr>)"

definition finishRun_makeURL :: "'w spacesClient \<Rightarrow> spaceRun \<Rightarrow> go_error + string" where
  "finishRun_makeURL c r =
     (if spaceRun.ID r = [] then Inl ''No Run ID found to send PATCH request''
      else Inr (''/v0/spaces/'' @ spaceID (rsm c) @ ''/runs/'' @ spaceRun.ID r))"

definition finishRun_request :: "'w spacesClient \<Rightarrow> 'w spaceRequest" where
  "finishRun_request c =
     \<lparr> method = ''PATCH'',
       url = [],
       makeURL = Some (finishRun_makeURL c),
       body = RunPayload (newSpacesDonePayload (RunSummary (rsm c))),
       onDone = None \<rparr>"

subsection \<open>The goroutines\<close>

text \<open>
  The eight goroutines of \<open>newSpacesClient\<close> and the goroutine of the caller run
  interleaved. A worker is at one statement of its loop, with the request it has received:

  \<^verbatim>\<open>
  for req := range c.requests {     AtRange
      mu.Lock()                     AtLock req
      if !firstReqDone {            AtIf req
          firstReqDone = true       AtSet req
          mu.Unlock()               AtUnlockFirst req
          c.makeRequest(req)        AtMakeFirst req
          close(c.run.created)      AtCloseCreated
      } else {
          mu.Unlock()               AtUnlockElse req
          c.makeRequest(req)        AtMakeElse req
      }
  }                                 Returned, after the deferred c.wg.Done()
  \<close>
\<close>

datatype 'w worker =
    AtRange
  | AtLock "'w spaceRequest"
  | AtIf "'w spaceRequest"
  | AtSet "'w spaceRequest"
  | AtUnlockFirst "'w spaceRequest"
  | AtMakeFirst "'w spaceRequest"
  | AtCloseCreated
  | AtUnlockElse "'w spaceRequest"
  | AtMakeElse "'w spaceRequest"
  | Returned

text \<open>
  The caller of the client makes the calls of a list, one after the other. Inside a call
  it is at the send of \<open>startRun\<close>, at its receive from \<open>created\<close>, at the send of
  \<open>postTask\<close> or \<open>finishRun\<close>, or at \<open>c.wg.Wait()\<close> in \<open>Close\<close>.
\<close>

datatype call = StartRun | PostTask TaskSummary | FinishRun | Close

datatype 'w caller =
    Idle
  | StartRun_send "'w spaceRequest"
  | StartRun_wait
  | Enqueue_send "'w spaceRequest"
  | Close_wait

text \<open>
  \<open>mu\<close> is true while the mutex is locked. \<open>panic\<close> holds the message once a goroutine
  has panicked, which ends the process.
\<close>

record 'w system =
  client :: "'w spacesClient"
  mu :: bool
  firstReqDone :: bool
  workers :: "'w worker list"
  caller :: "'w caller"
  calls :: "call list"
  panic :: "string option"

datatype thread = Caller | Worker nat

text \<open>What a step does, as far as the properties below speak of it.\<close>

datatype 'w event =
    Enqueue "'w spaceRequest"
  | Dequeue nat "'w spaceRequest"
  | Lock nat
  | Test nat
  | GateOpen nat "'w spaceRequest"
  | Unlock nat
  | Processed nat "'w spaceRequest"
  | Signal nat
  | WorkerDone nat
  | StartRunReturns
  | CloseRequests
  | CloseReturns
  | Panic string

definition processors :: nat where
  "processors = 8"

text \<open>
  \<open>newSpacesClient\<close> returns with the eight goroutines started, each before its first
  receive, and the wait group at eight.
\<close>

definition newSpacesClient :: "'w APIClient \<Rightarrow> Meta \<Rightarrow> 'w \<Rightarrow> 'w system" where
  "newSpacesClient a m w =
     \<lparr> client = \<lparr> rsm = m, requests = Open, errors = [], api = a,
                  run = \<lparr> spaceRun.ID = [], URL = [], created = Open \<rparr>,
                  wg = processors, net = w \<rparr>,
       mu = False,
       firstReqDone = False,
       workers = replicate processors AtRange,
       caller = Idle,
       calls = [],
       panic = None \<rparr>"

definition raise :: "string \<Rightarrow> 'w system \<Rightarrow> ('w event \<times> 'w system) option" where
  "raise msg s = Some (Panic msg, s\<lparr>panic := Some msg\<rparr>)"

definition goto :: "nat \<Rightarrow> 'w worker \<Rightarrow> 'w system \<Rightarrow> 'w system" where
  "goto i w s = s\<lparr>workers := (workers s)[i := w]\<rparr>"

text \<open>
  One step of worker \<open>i\<close>; \<open>None\<close> when it is blocked or has returned. A receive from the
  open channel needs the caller at a send; on the closed channel the loop ends. Closing a
  closed channel, unlocking an unlocked mutex and a negative wait group counter panic.
  A step is one statement of the loop, and the call of \<open>makeRequest\<close> is one step: what
  two calls that run at the same time do to each other's reads and writes of \<open>c.errors\<close>
  and \<open>c.run\<close> is not part of this model. That two calls can run at the same time is.
\<close>

definition worker_step :: "nat \<Rightarrow> 'w system \<Rightarrow> ('w event \<times> 'w system) option" where
  "worker_step i s =
     (case workers s ! i of
        AtRange \<Rightarrow>
          (if requests (client s) = Closed then
             (if wg (client s) = 0 then raise ''sync: negative WaitGroup counter'' s
              else Some (WorkerDone i,
                         (goto i Returned s)\<lparr>client := (client s)\<lparr>wg := wg (client s) - 1\<rparr>\<rparr>))
           else
             (case caller s of
                StartRun_send req \<Rightarrow>
                  Some (Dequeue i req, (goto i (AtLock req) s)\<lparr>caller := StartRun_wait\<rparr>)
              | Enqueue_send req \<Rightarrow>
                  Some (Dequeue i req, (goto i (AtLock req) s)\<lparr>caller := Idle\<rparr>)
              | _ \<Rightarrow> None))
      | AtLock req \<Rightarrow>
          (if mu s then None else Some (Lock i, (goto i (AtIf req) s)\<lparr>mu := True\<rparr>))
      | AtIf req \<Rightarrow>
          Some (Test i, goto i (if \<not> firstReqDone s then AtSet req else AtUnlockElse req) s)
      | AtSet req \<Rightarrow>
          Some (GateOpen i req, (goto i (AtUnlockFirst req) s)\<lparr>firstReqDone := True\<rparr>)
      | AtUnlockFirst req \<Rightarrow>
          (if \<not> mu s then raise ''sync: unlock of unlocked mutex'' s
           else Some (Unlock i, (goto i (AtMakeFirst req) s)\<lparr>mu := False\<rparr>))
      | AtMakeFirst req \<Rightarrow>
          Some (Processed i req, (goto i AtCloseCreated s)\<lparr>client := makeRequest req (client s)\<rparr>)
      | AtCloseCreated \<Rightarrow>
          (if created (run (client s)) = Closed then raise ''close of closed channel'' s
           else Some (Signal i,
                      (goto i AtRange s)
                        \<lparr>client := (client s)\<lparr>run := (run (client s))\<lparr>created := Closed\<rparr>\<rparr>\<rparr>))
      | AtUnlockElse req \<Rightarrow>
          (if \<not> mu s then raise ''sync: unlock of unlocked mutex'' s
           else Some (Unlock i, (goto i (AtMakeElse req) s)\<lparr>mu := False\<rparr>))
      | AtMakeElse req \<Rightarrow>
          Some (Processed i req, (goto i AtRange s)\<lparr>client := makeRequest req (client s)\<rparr>)
      | Returned \<Rightarrow> None)"

text \<open>
  One step of the caller. A call starts by building its request, which for \<open>postTask\<close>
  can panic, and then stands at the send; the send itself is the receive of a worker. A
  send on the closed channel panics, and so does \<open>close\<close> of the closed channel.
\<close>

definition start_call :: "externals \<Rightarrow> call \<Rightarrow> 'w system \<Rightarrow> ('w event \<times> 'w system) option" where
  "start_call ext k s =
     (case k of
        StartRun \<Rightarrow>
          (let req = startRun_request ext (client s)
           in Some (Enqueue req, s\<lparr>caller := StartRun_send req\<rparr>))
      | PostTask task \<Rightarrow>
          (case postTask_request (client s) task of
             None \<Rightarrow> raise ''invalid memory address or nil pointer dereference'' s
           | Some req \<Rightarrow> Some (Enqueue req, s\<lparr>caller := Enqueue_send req\<rparr>))
      | FinishRun \<Rightarrow>
          (let req = finishRun_request (client s)
           in Some (Enqueue req, s\<lparr>caller := Enqueue_send req\<rparr>))
      | Close \<Rightarrow>
          (if requests (client s) = Closed then raise ''close of closed channel'' s
           else Some (CloseRequests,
                      s\<lparr>client := (client s)\<lparr>requests := Closed\<rparr>, caller := Close_wait\<rparr>)))"

definition caller_step :: "externals \<Rightarrow> 'w system \<Rightarrow> ('w event \<times> 'w system) option" where
  "caller_step ext s =
     (case caller s of
        Idle \<Rightarrow>
          (case calls s of
             [] \<Rightarrow> None
           | k # ks \<Rightarrow> start_call ext k (s\<lparr>calls := ks\<rparr>))
      | StartRun_send req \<Rightarrow>
          (if requests (client s) = Closed then raise ''send on closed channel'' s else None)
      | StartRun_wait \<Rightarrow>
          (if created (run (client s)) = Closed then Some (StartRunReturns, s\<lparr>caller := Idle\<rparr>)
           else None)
      | Enqueue_send req \<Rightarrow>
          (if requests (client s) = Closed then raise ''send on closed channel'' s else None)
      | Close_wait \<Rightarrow>
          (if wg (client s) = 0 then Some (CloseReturns, s\<lparr>caller := Idle\<rparr>) else None))"

definition step :: "externals \<Rightarrow> thread \<Rightarrow> 'w system \<Rightarrow> ('w event \<times> 'w system) option" where
  "step ext t s =
     (if panic s \<noteq> None then None
      else case t of
             Caller \<Rightarrow> caller_step ext s
           | Worker i \<Rightarrow> (if i < length (workers s) then worker_step i s else None))"

text \<open>
  A schedule names the thread of each step. \<open>exec\<close> runs it and returns the events and
  the last state, or \<open>None\<close> when the schedule names a thread that cannot step.
\<close>

fun exec ::
  "externals \<Rightarrow> thread list \<Rightarrow> 'w system \<Rightarrow> ('w event list \<times> 'w system) option" where
  "exec ext [] s = Some ([], s)"
| "exec ext (t # ts) s =
     (case step ext t s of
        None \<Rightarrow> None
      | Some (e, s1) \<Rightarrow>
          (case exec ext ts s1 of
             None \<Rightarrow> None
           | Some (es, s2) \<Rightarrow> Some (e # es, s2)))"

definition threads :: "'w system \<Rightarrow> thread list" where
  "threads s = Caller # map Worker [0..<length (workers s)]"

definition blocked :: "externals \<Rightarrow> 'w system \<Rightarrow> thread \<Rightarrow> bool" where
  "blocked ext s t = (case step ext t s of None \<Rightarrow> True | Some x \<Rightarrow> False)"

text \<open>No thread can step: the process has ended, or it hangs.\<close>

definition stuck :: "externals \<Rightarrow> 'w system \<Rightarrow> bool" where
  "stuck ext s = list_all (blocked ext s) (threads s)"

text \<open>The caller has returned from its last call.\<close>

definition finished :: "'w system \<Rightarrow> bool" where
  "finished s = (panic s = None \<and> calls s = [] \<and> (case caller s of Idle \<Rightarrow> True | _ \<Rightarrow> False))"

subsection \<open>The steps of a request, as the specification words them\<close>

text \<open>
  The specification gives the work on one request as steps: resolve the URL if the request
  carries a resolver; validate that the space is configured and the repository linked;
  serialise the body; dispatch with the call for the verb; on success run the completion
  handler. These definitions follow that wording, one per step. They are compared with
  \<open>makeRequest\<close> below; they are not read off the source.
\<close>

definition spec_resolve :: "'w spaceRequest \<Rightarrow> spaceRun \<Rightarrow> go_error + 'w spaceRequest" where
  "spec_resolve req r =
     (case makeURL req of
        None \<Rightarrow> Inr req
      | Some resolver \<Rightarrow> (case resolver r of Inl e \<Rightarrow> Inl e | Inr u \<Rightarrow> Inr (req\<lparr>url := u\<rparr>)))"

definition spec_validate :: "'w spaceRequest \<Rightarrow> 'w spacesClient \<Rightarrow> go_error option" where
  "spec_validate req c =
     (if spaceID (rsm c) = [] then Some (error req ''No spaceID found'')
      else if \<not> IsLinked (api c) (net c) then
        Some (error req ''Repo is not linked to a Space. Run `turbo link --target=spaces` first'')
      else None)"

definition spec_serialize :: "'w spaceRequest \<Rightarrow> go_error + json" where
  "spec_serialize req =
     (case json_Marshal (body req) of
        Inl e \<Rightarrow> Inl (error req (''Failed to create payload: '' @ e))
      | Inr payload \<Rightarrow> Inr payload)"

definition spec_dispatch ::
  "'w spaceRequest \<Rightarrow> json \<Rightarrow> 'w spacesClient \<Rightarrow> (bytes option \<times> go_error option) \<times> 'w" where
  "spec_dispatch req payload c =
     (if method req = ''POST'' then JSONPost (api c) (url req) payload (net c)
      else JSONPatch (api c) (url req) payload (net c))"

text \<open>
  The steps up to the dispatch, stopped at the first that fails: the error of that step,
  or the response, each with the client as the steps have left it.
\<close>

datatype 'w attempt =
    Failure go_error "'w spacesClient"
  | Success "bytes option" "'w spacesClient"

definition spec_attempt :: "'w spaceRequest \<Rightarrow> 'w spacesClient \<Rightarrow> 'w attempt" where
  "spec_attempt req0 c =
     (case spec_resolve req0 (run c) of
        Inl e \<Rightarrow> Failure e c
      | Inr req \<Rightarrow>
          (case spec_validate req c of
             Some e \<Rightarrow> Failure e c
           | None \<Rightarrow>
               (case spec_serialize req of
                  Inl e \<Rightarrow> Failure e c
                | Inr payload \<Rightarrow>
                    (case spec_dispatch req payload c of
                       ((resp, Some e), w) \<Rightarrow> Failure (error req e) (c\<lparr>net := w\<rparr>)
                     | ((resp, None), w) \<Rightarrow> Success resp (c\<lparr>net := w\<rparr>)))))"

text \<open>A failure is recorded; a success runs the handler, if there is one.\<close>

definition spec_process :: "'w spaceRequest \<Rightarrow> 'w spacesClient \<Rightarrow> 'w spacesClient" where
  "spec_process req c =
     (case spec_attempt req c of
        Failure e c1 \<Rightarrow> record_error e c1
      | Success resp c1 \<Rightarrow> (case onDone req of None \<Rightarrow> c1 | Some f \<Rightarrow> f resp c1))"

text \<open>
  The call of the transport has succeeded: the verb has a call, the steps before it have
  passed, and the call has returned without an error. Then the value is the response and
  the client after the call.
\<close>

definition transport_outcome ::
  "'w spaceRequest \<Rightarrow> 'w spacesClient \<Rightarrow> (bytes option \<times> 'w spacesClient) option" where
  "transport_outcome req c =
     (if method req \<noteq> ''POST'' \<and> method req \<noteq> ''PATCH'' then None
      else case spec_attempt req c of
             Failure e c1 \<Rightarrow> None
           | Success resp c1 \<Rightarrow> Some (resp, c1))"

text \<open>Two clients that differ at most in the state of the network.\<close>

definition same_but_net :: "'w spacesClient \<Rightarrow> 'w spacesClient \<Rightarrow> bool" where
  "same_but_net c c1 =
     (errors c1 = errors c \<and> run c1 = run c \<and> rsm c1 = rsm c \<and> api c1 = api c
      \<and> requests c1 = requests c \<and> wg c1 = wg c)"

subsection \<open>Places in the loop, and what holds of the pool in every state\<close>

text \<open>
  \<open>how_many P ws\<close> counts the workers of which \<open>P\<close> holds. A worker holds the mutex
  from its \<open>Lock\<close> to its \<open>Unlock\<close>. It opens the gate from the moment it has set
  \<open>firstReqDone\<close> until it has closed \<open>created\<close>. Before the gate it has a request and
  has not yet passed the test. \<open>held\<close> is the request a worker has in hand, \<open>sending\<close>
  the one the caller offers.
\<close>

definition how_many :: "('a \<Rightarrow> bool) \<Rightarrow> 'a list \<Rightarrow> nat" where
  "how_many P xs = length (filter P xs)"

fun holds_mu :: "'w worker \<Rightarrow> bool" where
  "holds_mu (AtIf r) = True"
| "holds_mu (AtSet r) = True"
| "holds_mu (AtUnlockFirst r) = True"
| "holds_mu (AtUnlockElse r) = True"
| "holds_mu _ = False"

fun at_set :: "'w worker \<Rightarrow> bool" where
  "at_set (AtSet r) = True"
| "at_set _ = False"

fun opens_gate :: "'w worker \<Rightarrow> bool" where
  "opens_gate (AtUnlockFirst r) = True"
| "opens_gate (AtMakeFirst r) = True"
| "opens_gate AtCloseCreated = True"
| "opens_gate _ = False"

fun before_gate :: "'w worker \<Rightarrow> bool" where
  "before_gate (AtLock r) = True"
| "before_gate (AtIf r) = True"
| "before_gate (AtSet r) = True"
| "before_gate _ = False"


fun returned :: "'w worker \<Rightarrow> bool" where
  "returned Returned = True"
| "returned _ = False"

fun held :: "'w worker \<Rightarrow> 'w spaceRequest option" where
  "held (AtLock r) = Some r"
| "held (AtIf r) = Some r"
| "held (AtSet r) = Some r"
| "held (AtUnlockFirst r) = Some r"
| "held (AtMakeFirst r) = Some r"
| "held (AtUnlockElse r) = Some r"
| "held (AtMakeElse r) = Some r"
| "held _ = None"

fun sending :: "'w caller \<Rightarrow> 'w spaceRequest option" where
  "sending (StartRun_send r) = Some r"
| "sending (Enqueue_send r) = Some r"
| "sending _ = None"

text \<open>
  A request is harmless when serving it leaves the channel, the wait group and \<open>created\<close>
  alone and only adds to the end of the error list. The requests that the three calls
  build are harmless; a request with another handler need not be.
\<close>

definition harmless :: "'w spaceRequest \<Rightarrow> bool" where
  "harmless r = (\<forall>c. requests (makeRequest r c) = requests c \<and> wg (makeRequest r c) = wg c
                   \<and> created (run (makeRequest r c)) = created (run c)
                   \<and> prefix (errors c) (errors (makeRequest r c)))"

definition harmful :: "'w spaceRequest option \<Rightarrow> bool" where
  "harmful x = (case x of None \<Rightarrow> False | Some r \<Rightarrow> \<not> harmless r)"

definition risky :: "'w worker \<Rightarrow> bool" where
  "risky w = harmful (held w)"

text \<open>
  What holds in every state that an execution reaches: there are workers; the mutex is
  locked exactly when one worker holds it; one worker opens the gate exactly while
  \<open>firstReqDone\<close> is set and \<open>created\<close> is open; \<open>created\<close> is closed only after
  \<open>firstReqDone\<close> is set; no worker is about to set \<open>firstReqDone\<close> once it is set; the
  wait group counts the workers that have not returned; no worker returns while the channel
  is open; while the caller waits in \<open>startRun\<close> and the flag is not set, some worker is
  on its way to the test; the caller waits in \<open>Close\<close> only with the channel closed; and
  every request in hand is harmless.
\<close>

definition pool_inv :: "'w system \<Rightarrow> bool" where
  "pool_inv s =
     (workers s \<noteq> []
      \<and> how_many holds_mu (workers s) = (if mu s then 1 else 0)
      \<and> how_many opens_gate (workers s)
          = (if firstReqDone s \<and> created (run (client s)) = Open then 1 else 0)
      \<and> (created (run (client s)) = Closed \<longrightarrow> firstReqDone s)
      \<and> (firstReqDone s \<longrightarrow> how_many at_set (workers s) = 0)
      \<and> wg (client s) + how_many returned (workers s) = length (workers s)
      \<and> (requests (client s) = Open \<longrightarrow> how_many returned (workers s) = 0)
      \<and> (caller s = StartRun_wait \<and> \<not> firstReqDone s \<longrightarrow> 0 < how_many before_gate (workers s))
      \<and> (caller s = Close_wait \<longrightarrow> requests (client s) = Closed)
      \<and> how_many risky (workers s) = 0
      \<and> \<not> harmful (sending (caller s)))"

text \<open>
  A bound on the steps a state has left: every step lowers it. A receive moves the
  caller past its send, which pays for the loop body of the worker.
\<close>

fun worker_cost :: "'w worker \<Rightarrow> nat" where
  "worker_cost Returned = 0"
| "worker_cost AtRange = 1"
| "worker_cost AtCloseCreated = 2"
| "worker_cost (AtMakeFirst r) = 3"
| "worker_cost (AtUnlockFirst r) = 4"
| "worker_cost (AtSet r) = 5"
| "worker_cost (AtMakeElse r) = 2"
| "worker_cost (AtUnlockElse r) = 3"
| "worker_cost (AtIf r) = 6"
| "worker_cost (AtLock r) = 7"

fun call_cost :: "call \<Rightarrow> nat" where
  "call_cost StartRun = 9"
| "call_cost (PostTask t) = 8"
| "call_cost FinishRun = 8"
| "call_cost Close = 2"

fun caller_cost :: "'w caller \<Rightarrow> nat" where
  "caller_cost Idle = 0"
| "caller_cost (StartRun_send r) = 8"
| "caller_cost StartRun_wait = 1"
| "caller_cost (Enqueue_send r) = 7"
| "caller_cost Close_wait = 1"

definition cost :: "'w system \<Rightarrow> nat" where
  "cost s = (if panic s = None then 1 else 0) + caller_cost (caller s)
            + sum_list (map call_cost (calls s)) + sum_list (map worker_cost (workers s))"




text \<open>
  Properties of the events of an execution. \<open>returns_after_signal b es\<close>: every return of
  \<open>startRun\<close> in \<open>es\<close> comes after a \<open>Signal\<close>, or \<open>b\<close> holds: the signal was set
  before.
\<close>

fun returns_after_signal :: "bool \<Rightarrow> 'w event list \<Rightarrow> bool" where
  "returns_after_signal b [] = True"
| "returns_after_signal b (Signal i # es) = returns_after_signal True es"
| "returns_after_signal b (StartRunReturns # es) = (b \<and> returns_after_signal b es)"
| "returns_after_signal b (e # es) = returns_after_signal b es"

text \<open>
  The gate: shut; opened by worker \<open>i\<close>, which has set \<open>firstReqDone\<close> for its request;
  served, once that worker is back from \<open>makeRequest\<close>; signalled, once it has closed
  \<open>created\<close>. \<open>gate_step\<close> follows one event and is \<open>None\<close> when the event breaks the
  order: a second opening, or a signal that is not the opener's after its request.
\<close>

datatype 'w gate =
    Shut
  | Opened nat "'w spaceRequest"
  | Served nat "'w spaceRequest"
  | Signalled nat "'w spaceRequest"

fun gate_step :: "'w gate \<Rightarrow> 'w event \<Rightarrow> 'w gate option" where
  "gate_step Shut (GateOpen i r) = Some (Opened i r)"
| "gate_step g (GateOpen i r) = None"
| "gate_step (Opened i r) (Processed j q) = (if j = i then Some (Served i r) else Some (Opened i r))"
| "gate_step (Served i r) (Signal j) = (if j = i then Some (Signalled i r) else None)"
| "gate_step g (Signal j) = None"
| "gate_step g e = Some g"

fun gate_run :: "'w gate \<Rightarrow> 'w event list \<Rightarrow> 'w gate option" where
  "gate_run g [] = Some g"
| "gate_run g (e # es) = (case gate_step g e of None \<Rightarrow> None | Some g1 \<Rightarrow> gate_run g1 es)"

text \<open>What the state of the gate says about the state of the system.\<close>

fun gate_rel :: "'w gate \<Rightarrow> 'w system \<Rightarrow> bool" where
  "gate_rel Shut s = (\<not> firstReqDone s)"
| "gate_rel (Opened i r) s =
     (firstReqDone s \<and> created (run (client s)) = Open \<and> i < length (workers s)
      \<and> (workers s ! i = AtUnlockFirst r \<or> workers s ! i = AtMakeFirst r))"
| "gate_rel (Served i r) s =
     (firstReqDone s \<and> created (run (client s)) = Open \<and> i < length (workers s)
      \<and> workers s ! i = AtCloseCreated)"
| "gate_rel (Signalled i r) s = (created (run (client s)) = Closed)"

fun gate_opener :: "'w gate \<Rightarrow> (nat \<times> 'w spaceRequest) option" where
  "gate_opener Shut = None"
| "gate_opener (Opened i r) = Some (i, r)"
| "gate_opener (Served i r) = Some (i, r)"
| "gate_opener (Signalled i r) = Some (i, r)"

text \<open>The first worker to receive a request, and the first to open the gate.\<close>

fun first_dequeue :: "'w event list \<Rightarrow> (nat \<times> 'w spaceRequest) option" where
  "first_dequeue [] = None"
| "first_dequeue (Dequeue i r # es) = Some (i, r)"
| "first_dequeue (e # es) = first_dequeue es"

fun opener :: "'w event list \<Rightarrow> (nat \<times> 'w spaceRequest) option" where
  "opener [] = None"
| "opener (GateOpen i r # es) = Some (i, r)"
| "opener (e # es) = opener es"

text \<open>The events and the last state of a schedule that can be run.\<close>

definition events :: "externals \<Rightarrow> thread list \<Rightarrow> 'w system \<Rightarrow> 'w event list" where
  "events ext sched s = (case exec ext sched s of None \<Rightarrow> [] | Some (es, s1) \<Rightarrow> es)"

definition outcome :: "externals \<Rightarrow> thread list \<Rightarrow> 'w system \<Rightarrow> 'w system" where
  "outcome ext sched s = (case exec ext sched s of None \<Rightarrow> s | Some (es, s1) \<Rightarrow> s1)"

text \<open>Events that open the gate, and events that set the signal.\<close>

fun opens :: "'w event \<Rightarrow> bool" where
  "opens (GateOpen i r) = True"
| "opens _ = False"

fun signals :: "'w event \<Rightarrow> bool" where
  "signals (Signal i) = True"
| "signals _ = False"

text \<open>
  The caller waits in \<open>startRun\<close>, worker \<open>i\<close> has received the request \<open>r\<close> and has not
  yet set \<open>firstReqDone\<close>, and every other worker waits for a request.
\<close>

definition first_in_flight :: "nat \<Rightarrow> 'w spaceRequest \<Rightarrow> 'w system \<Rightarrow> bool" where
  "first_in_flight i r s =
     (caller s = StartRun_wait \<and> \<not> firstReqDone s \<and> requests (client s) = Open
      \<and> i < length (workers s) \<and> before_gate (workers s ! i) \<and> held (workers s ! i) = Some r
      \<and> (\<forall>j < length (workers s). j \<noteq> i \<longrightarrow> workers s ! j = AtRange))"

text \<open>The schedule can be run from the state: each thread it names can step.\<close>

definition runs :: "externals \<Rightarrow> thread list \<Rightarrow> 'w system \<Rightarrow> bool" where
  "runs ext sched s = (case exec ext sched s of None \<Rightarrow> False | Some x \<Rightarrow> True)"

text \<open>
  The request a call puts on the channel, the calls whose URL needs the id of the run, and
  the error their URL gives without it. \<open>makeRequests\<close> serves a list of requests one
  after the other.
\<close>

fun enqueued :: "externals \<Rightarrow> 'w spacesClient \<Rightarrow> call \<Rightarrow> 'w spaceRequest option" where
  "enqueued ext c StartRun = Some (startRun_request ext c)"
| "enqueued ext c (PostTask task) = postTask_request c task"
| "enqueued ext c FinishRun = Some (finishRun_request c)"
| "enqueued ext c Close = None"

fun needs_run :: "call \<Rightarrow> bool" where
  "needs_run (PostTask task) = True"
| "needs_run FinishRun = True"
| "needs_run _ = False"

fun missing_run_id :: "call \<Rightarrow> go_error" where
  "missing_run_id (PostTask task) = ''No Run ID found to post task '' @ TaskID task"
| "missing_run_id FinishRun = ''No Run ID found to send PATCH request''"
| "missing_run_id _ = []"

fun makeRequests :: "'w spaceRequest list \<Rightarrow> 'w spacesClient \<Rightarrow> 'w spacesClient" where
  "makeRequests [] c = c"
| "makeRequests (r # rs) c = makeRequests rs (makeRequest r c)"

subsection \<open>Inputs for the instances\<close>

definition sample_meta :: Meta where
  "sample_meta =
     \<lparr> RunSummary =
         \<lparr> ExecutionSummary = \<lparr> startedAt = 1700000000000, endedAt = 1700000005000, exitCode = 1 \<rparr>,
           SCM = \<lparr> Branch = ''main'', Sha = ''0a1b2c'' \<rparr>,
           User = ''dev'', TurboVersion = ''1.9.3'' \<rparr>,
       spaceID = ''space_1'',
       synthesizedCommand = ''turbo run build'',
       repoPath = ''/repo'' \<rparr>"

definition sample_task :: "string \<Rightarrow> TaskSummary" where
  "sample_task name =
     \<lparr> TaskID = ''web#'' @ name, Task = name, Package = ''web'', Hash = ''abc123'',
       CacheSummary = \<lparr> Local = True, Remote = False, Status = ''HIT'', Source = [], TimeSaved = 42 \<rparr>,
       Execution = \<lparr> startAt = 1700000001000, endTime = 1700000002000, exitCode = Some 0 \<rparr>,
       Dependencies = [], Dependents = [], GetLogs = ''cache hit'' \<rparr>"

text \<open>
  Three transports over a counter of the calls made: one that answers, one that fails, one
  that returns neither a response nor an error. The decoder stands in for
  \<open>json.Unmarshal\<close>: it knows the one answer of the first transport.
\<close>

definition answering :: "nat APIClient" where
  "answering =
     \<lparr> IsLinked = (\<lambda>w. True),
       JSONPost = (\<lambda>u p w. ((Some ''run_1'', None), Suc w)),
       JSONPatch = (\<lambda>u p w. ((Some [], None), Suc w)) \<rparr>"

definition failing :: "nat APIClient" where
  "failing =
     \<lparr> IsLinked = (\<lambda>w. True),
       JSONPost = (\<lambda>u p w. ((None, Some ''connection refused''), Suc w)),
       JSONPatch = (\<lambda>u p w. ((None, Some ''connection refused''), Suc w)) \<rparr>"

definition silent :: "nat APIClient" where
  "silent =
     \<lparr> IsLinked = (\<lambda>w. True),
       JSONPost = (\<lambda>u p w. ((None, None), Suc w)),
       JSONPatch = (\<lambda>u p w. ((None, None), Suc w)) \<rparr>"

definition sample_ext :: externals where
  "sample_ext =
     \<lparr> ci_Constant = [],
       json_Unmarshal =
         (\<lambda>b r. if b = ''run_1''
                 then (r\<lparr>spaceRun.ID := ''run_1'', URL := ''https://vercel.com/spaces/run_1''\<rparr>, None)
                 else (r, Some ''unexpected end of JSON input'')) \<rparr>"

definition boot :: "nat APIClient \<Rightarrow> call list \<Rightarrow> nat system" where
  "boot a cs = (newSpacesClient a sample_meta 0)\<lparr>calls := cs\<rparr>"

text \<open>
  Schedules. \<open>session_schedule\<close> runs \<open>startRun\<close>, one \<open>postTask\<close>, \<open>finishRun\<close> and \<open>Close\<close>
  to the end: worker 0 serves the first request, workers 1 and 2 the next two, then all
  eight return.
\<close>

definition session :: "call list" where
  "session = [StartRun, PostTask (sample_task ''build''), FinishRun, Close]"

definition session_schedule :: "thread list" where
  "session_schedule =
     [Caller, Worker 0, Worker 0, Worker 0, Worker 0, Worker 0, Worker 0, Worker 0, Caller,
      Caller, Worker 1, Worker 1, Worker 1, Worker 1, Worker 1,
      Caller, Worker 2, Worker 2, Worker 2, Worker 2, Worker 2,
      Caller, Worker 0, Worker 1, Worker 2, Worker 3, Worker 4, Worker 5, Worker 6, Worker 7,
      Caller]"

text \<open>
  \<open>race_schedule\<close>: two tasks are posted and \<open>startRun\<close> is never called. Worker 0
  receives the first request, worker 1 the second, and worker 1 is the first at the mutex.
\<close>

definition race_calls :: "call list" where
  "race_calls = [PostTask (sample_task ''build''), PostTask (sample_task ''test'')]"

definition race_schedule :: "thread list" where
  "race_schedule = [Caller, Worker 0, Caller, Worker 1, Worker 1, Worker 1, Worker 1]"







section \<open>makeRequest, path by path\<close>

text \<open>
  One lemma for each way through \<open>makeRequest\<close>, then the comparison with the steps of
  the specification.
\<close>




lemma resolve_unfold:
  "(case makeURL req of None \<Rightarrow> Inr req
    | Some f \<Rightarrow> (case f (run c) of Inl err \<Rightarrow> Inl err | Inr u \<Rightarrow> Inr (req\<lparr>url := u\<rparr>)))
   = spec_resolve req (run c)"
  by (simp add: spec_resolve_def)

lemma makeRequest_resolved:
  "makeRequest req0 c =
     (case spec_resolve req0 (run c) of
        Inl err \<Rightarrow> record_error err c
      | Inr req \<Rightarrow>
          if spaceID (rsm c) = [] then record_error (error req ''No spaceID found'') c
          else if \<not> IsLinked (api c) (net c) then
            record_error
              (error req ''Repo is not linked to a Space. Run `turbo link --target=spaces` first'') c
          else if method req \<noteq> ''POST'' \<and> method req \<noteq> ''PATCH'' then
            record_error (error req (''Unsupported method '' @ method req)) c
          else
            (case json_Marshal (body req) of
               Inl err \<Rightarrow> record_error (error req (''Failed to create payload: '' @ err)) c
             | Inr payload \<Rightarrow>
                 (let (resp, reqErr, c1) =
                        (if method req = ''POST'' then
                           (let (r, w) = JSONPost (api c) (url req) payload (net c)
                            in (fst r, snd r, c\<lparr>net := w\<rparr>))
                         else if method req = ''PATCH'' then
                           (let (r, w) = JSONPatch (api c) (url req) payload (net c)
                            in (fst r, snd r, c\<lparr>net := w\<rparr>))
                         else (None, None, record_error (error req ''Unsupported request method'') c))
                  in case reqErr of
                       Some e \<Rightarrow> record_error (error req e) c1
                     | None \<Rightarrow> (case onDone req of None \<Rightarrow> c1 | Some f \<Rightarrow> f resp c1))))"
  unfolding makeRequest_def resolve_unfold ..

lemma resolve_fields:
  "spec_resolve req0 r = Inr req \<Longrightarrow>
     method req = method req0 \<and> body req = body req0 \<and> onDone req = onDone req0 \<and> makeURL req = makeURL req0"
  by (auto simp: spec_resolve_def split: option.splits sum.splits)

lemma path_resolve:
  "spec_resolve req0 (run c) = Inl e \<Longrightarrow> makeRequest req0 c = record_error e c"
  by (simp add: makeRequest_resolved)

lemma path_spaceID:
  "spec_resolve req0 (run c) = Inr req \<Longrightarrow> spaceID (rsm c) = [] \<Longrightarrow>
   makeRequest req0 c = record_error (error req ''No spaceID found'') c"
  by (simp add: makeRequest_resolved)

lemma path_linked:
  "spec_resolve req0 (run c) = Inr req \<Longrightarrow> spaceID (rsm c) \<noteq> [] \<Longrightarrow> \<not> IsLinked (api c) (net c) \<Longrightarrow>
   makeRequest req0 c = record_error
     (error req ''Repo is not linked to a Space. Run `turbo link --target=spaces` first'') c"
  by (simp add: makeRequest_resolved)

lemma path_method:
  "spec_resolve req0 (run c) = Inr req \<Longrightarrow> spaceID (rsm c) \<noteq> [] \<Longrightarrow> IsLinked (api c) (net c) \<Longrightarrow>
   method req0 \<noteq> ''POST'' \<Longrightarrow> method req0 \<noteq> ''PATCH'' \<Longrightarrow>
   makeRequest req0 c = record_error (error req (''Unsupported method '' @ method req)) c"
  by (frule resolve_fields) (simp add: makeRequest_resolved)

lemma path_marshal:
  "spec_resolve req0 (run c) = Inr req \<Longrightarrow> spaceID (rsm c) \<noteq> [] \<Longrightarrow> IsLinked (api c) (net c) \<Longrightarrow>
   method req0 = ''POST'' \<or> method req0 = ''PATCH'' \<Longrightarrow> json_Marshal (body req0) = Inl e \<Longrightarrow>
   makeRequest req0 c = record_error (error req (''Failed to create payload: '' @ e)) c"
  by (frule resolve_fields) (auto simp add: makeRequest_resolved)

lemma path_post:
  "spec_resolve req0 (run c) = Inr req \<Longrightarrow> spaceID (rsm c) \<noteq> [] \<Longrightarrow> IsLinked (api c) (net c) \<Longrightarrow>
   method req0 = ''POST'' \<Longrightarrow> json_Marshal (body req0) = Inr payload \<Longrightarrow>
   JSONPost (api c) (url req) payload (net c) = ((resp, err), w) \<Longrightarrow>
   makeRequest req0 c =
     (case err of
        Some e \<Rightarrow> record_error (error req e) (c\<lparr>net := w\<rparr>)
      | None \<Rightarrow> (case onDone req0 of None \<Rightarrow> c\<lparr>net := w\<rparr> | Some f \<Rightarrow> f resp (c\<lparr>net := w\<rparr>)))"
  by (frule resolve_fields) (auto simp add: makeRequest_resolved split: option.splits)

lemma path_patch:
  "spec_resolve req0 (run c) = Inr req \<Longrightarrow> spaceID (rsm c) \<noteq> [] \<Longrightarrow> IsLinked (api c) (net c) \<Longrightarrow>
   method req0 = ''PATCH'' \<Longrightarrow> json_Marshal (body req0) = Inr payload \<Longrightarrow>
   JSONPatch (api c) (url req) payload (net c) = ((resp, err), w) \<Longrightarrow>
   makeRequest req0 c =
     (case err of
        Some e \<Rightarrow> record_error (error req e) (c\<lparr>net := w\<rparr>)
      | None \<Rightarrow> (case onDone req0 of None \<Rightarrow> c\<lparr>net := w\<rparr> | Some f \<Rightarrow> f resp (c\<lparr>net := w\<rparr>)))"
  by (frule resolve_fields) (auto simp add: makeRequest_resolved split: option.splits)


lemma attempt_resolve:
  "spec_resolve req0 (run c) = Inl e \<Longrightarrow> spec_attempt req0 c = Failure e c"
  by (simp add: spec_attempt_def)

lemma attempt_spaceID:
  "spec_resolve req0 (run c) = Inr req \<Longrightarrow> spaceID (rsm c) = [] \<Longrightarrow>
   spec_attempt req0 c = Failure (error req ''No spaceID found'') c"
  by (simp add: spec_attempt_def spec_validate_def)

lemma attempt_linked:
  "spec_resolve req0 (run c) = Inr req \<Longrightarrow> spaceID (rsm c) \<noteq> [] \<Longrightarrow> \<not> IsLinked (api c) (net c) \<Longrightarrow>
   spec_attempt req0 c = Failure
     (error req ''Repo is not linked to a Space. Run `turbo link --target=spaces` first'') c"
  by (simp add: spec_attempt_def spec_validate_def)

lemma attempt_marshal:
  "spec_resolve req0 (run c) = Inr req \<Longrightarrow> spaceID (rsm c) \<noteq> [] \<Longrightarrow> IsLinked (api c) (net c) \<Longrightarrow>
   json_Marshal (body req0) = Inl e \<Longrightarrow>
   spec_attempt req0 c = Failure (error req (''Failed to create payload: '' @ e)) c"
  by (frule resolve_fields) (simp add: spec_attempt_def spec_validate_def spec_serialize_def)

lemma attempt_post:
  "spec_resolve req0 (run c) = Inr req \<Longrightarrow> spaceID (rsm c) \<noteq> [] \<Longrightarrow> IsLinked (api c) (net c) \<Longrightarrow>
   method req0 = ''POST'' \<Longrightarrow> json_Marshal (body req0) = Inr payload \<Longrightarrow>
   JSONPost (api c) (url req) payload (net c) = ((resp, err), w) \<Longrightarrow>
   spec_attempt req0 c =
     (case err of
        Some e \<Rightarrow> Failure (error req e) (c\<lparr>net := w\<rparr>)
      | None \<Rightarrow> Success resp (c\<lparr>net := w\<rparr>))"
  by (frule resolve_fields)
     (simp add: spec_attempt_def spec_validate_def spec_serialize_def spec_dispatch_def)

lemma attempt_patch:
  "spec_resolve req0 (run c) = Inr req \<Longrightarrow> spaceID (rsm c) \<noteq> [] \<Longrightarrow> IsLinked (api c) (net c) \<Longrightarrow>
   method req0 \<noteq> ''POST'' \<Longrightarrow> json_Marshal (body req0) = Inr payload \<Longrightarrow>
   JSONPatch (api c) (url req) payload (net c) = ((resp, err), w) \<Longrightarrow>
   spec_attempt req0 c =
     (case err of
        Some e \<Rightarrow> Failure (error req e) (c\<lparr>net := w\<rparr>)
      | None \<Rightarrow> Success resp (c\<lparr>net := w\<rparr>))"
  by (frule resolve_fields)
     (simp add: spec_attempt_def spec_validate_def spec_serialize_def spec_dispatch_def)

lemma makeRequest_refines:
  assumes "method req0 = ''POST'' \<or> method req0 = ''PATCH''"
  shows "makeRequest req0 c = spec_process req0 c"
proof (cases "spec_resolve req0 (run c)")
  case (Inl e)
  then show ?thesis by (simp add: path_resolve attempt_resolve spec_process_def)
next
  case (Inr req)
  note f = resolve_fields [OF Inr]
  consider (a) "spaceID (rsm c) = []"
    | (b) "spaceID (rsm c) \<noteq> []" "\<not> IsLinked (api c) (net c)"
    | (c) "spaceID (rsm c) \<noteq> []" "IsLinked (api c) (net c)"
    by blast
  then show ?thesis
  proof cases
    case a
    then show ?thesis using Inr by (simp add: path_spaceID attempt_spaceID spec_process_def)
  next
    case b
    then show ?thesis using Inr by (simp add: path_linked attempt_linked spec_process_def)
  next
    case c
    show ?thesis
    proof (cases "json_Marshal (body req0)")
      case (Inl e)
      from path_marshal [OF Inr c assms Inl] attempt_marshal [OF Inr c Inl]
      show ?thesis by (simp add: spec_process_def)
    next
      case m: (Inr payload)
      show ?thesis
      proof (cases "method req0 = ''POST''")
        case True
        obtain resp err w where d: "JSONPost (api c) (url req) payload (net c) = ((resp, err), w)"
          by (metis surj_pair)
        from path_post [OF Inr c True m d] attempt_post [OF Inr c True m d]
        show ?thesis by (simp add: spec_process_def split: option.splits)
      next
        case False
        then have p: "method req0 = ''PATCH''" using assms by simp
        obtain resp err w where d: "JSONPatch (api c) (url req) payload (net c) = ((resp, err), w)"
          by (metis surj_pair)
        from path_patch [OF Inr c p m d] attempt_patch [OF Inr c False m d]
        show ?thesis by (simp add: spec_process_def split: option.splits)
      qed
    qed
  qed
qed

lemma error_onDone [simp]: "error (req\<lparr>onDone := g\<rparr>) m = error req m"
  by (simp add: error_def)

lemma resolve_onDone:
  "spec_resolve (req\<lparr>onDone := g\<rparr>) r =
     (case spec_resolve req r of Inl e \<Rightarrow> Inl e | Inr q \<Rightarrow> Inr (q\<lparr>onDone := g\<rparr>))"
  by (simp add: spec_resolve_def split: option.splits sum.splits)

lemma validate_onDone [simp]: "spec_validate (req\<lparr>onDone := g\<rparr>) c = spec_validate req c"
  by (simp add: spec_validate_def)

lemma serialize_onDone [simp]: "spec_serialize (req\<lparr>onDone := g\<rparr>) = spec_serialize req"
  by (simp add: spec_serialize_def split: sum.splits)

lemma dispatch_onDone [simp]: "spec_dispatch (req\<lparr>onDone := g\<rparr>) p c = spec_dispatch req p c"
  by (simp add: spec_dispatch_def)

lemma attempt_onDone [simp]: "spec_attempt (req\<lparr>onDone := g\<rparr>) c = spec_attempt req c"
proof (cases "spec_resolve req (run c)")
  case (Inl e)
  then show ?thesis by (simp add: spec_attempt_def resolve_onDone)
next
  case (Inr q)
  then show ?thesis
    by (simp add: spec_attempt_def resolve_onDone cong: option.case_cong sum.case_cong prod.case_cong)
qed

lemma outcome_onDone [simp]: "transport_outcome (req\<lparr>onDone := g\<rparr>) c = transport_outcome req c"
  by (simp add: transport_outcome_def)

lemma outcome_method:
  "transport_outcome req c = Some x \<Longrightarrow> method req = ''POST'' \<or> method req = ''PATCH''"
  by (auto simp: transport_outcome_def split: if_splits)

lemma makeRequest_succeeded:
  assumes "transport_outcome req c = Some (resp, c1)"
  shows "makeRequest req c = (case onDone req of None \<Rightarrow> c1 | Some f \<Rightarrow> f resp c1)"
proof -
  have "spec_attempt req c = Success resp c1"
    using assms by (simp add: transport_outcome_def split: if_splits attempt.splits)
  then show ?thesis
    using makeRequest_refines [OF outcome_method [OF assms]] by (simp add: spec_process_def)
qed

lemma makeRequest_bad_method:
  assumes "method req \<noteq> ''POST''" "method req \<noteq> ''PATCH''"
  shows "makeRequest (req\<lparr>onDone := g\<rparr>) c = makeRequest (req\<lparr>onDone := None\<rparr>) c"
proof (cases "spec_resolve req (run c)")
  case (Inl e)
  then show ?thesis by (simp add: path_resolve resolve_onDone)
next
  case (Inr q)
  then have r: "spec_resolve (req\<lparr>onDone := h\<rparr>) (run c) = Inr (q\<lparr>onDone := h\<rparr>)" for h
    by (simp add: resolve_onDone)
  note f = resolve_fields [OF Inr]
  consider (a) "spaceID (rsm c) = []"
    | (b) "spaceID (rsm c) \<noteq> []" "\<not> IsLinked (api c) (net c)"
    | (c) "spaceID (rsm c) \<noteq> []" "IsLinked (api c) (net c)"
    by blast
  then show ?thesis
  proof cases
    case a
    then show ?thesis by (simp add: path_spaceID [OF r])
  next
    case b
    then show ?thesis by (simp add: path_linked [OF r])
  next
    case c
    then show ?thesis using assms f by (simp add: path_method [OF r])
  qed
qed

lemma outcome_valid:
  assumes "method req = ''POST'' \<or> method req = ''PATCH''"
  shows "transport_outcome req c =
           (case spec_attempt req c of Failure e c1 \<Rightarrow> None | Success resp c1 \<Rightarrow> Some (resp, c1))"
proof (cases "method req = ''POST''")
  case True
  then show ?thesis unfolding transport_outcome_def by simp
next
  case False
  then have "method req = ''PATCH''" using assms by blast
  then show ?thesis unfolding transport_outcome_def by simp
qed

lemma outcome_invalid:
  "method req \<noteq> ''POST'' \<Longrightarrow> method req \<noteq> ''PATCH'' \<Longrightarrow> transport_outcome req c = None"
  unfolding transport_outcome_def by simp

lemma makeRequest_failed:
  assumes "transport_outcome req c = None"
  shows "makeRequest (req\<lparr>onDone := g\<rparr>) c = makeRequest (req\<lparr>onDone := None\<rparr>) c"
proof (cases "method req = ''POST'' \<or> method req = ''PATCH''")
  case True
  obtain e c1 where a: "spec_attempt req c = Failure e c1"
    using assms unfolding outcome_valid [OF True] by (cases "spec_attempt req c") simp_all
  have m: "method (req\<lparr>onDone := h\<rparr>) = ''POST'' \<or> method (req\<lparr>onDone := h\<rparr>) = ''PATCH''" for h
    using True by simp
  show ?thesis
    unfolding makeRequest_refines [OF m] by (simp add: spec_process_def a)
next
  case False
  show ?thesis by (rule makeRequest_bad_method) (use False in simp_all)
qed


lemma attempt_frame:
  assumes "spec_attempt req c = Failure e c1 \<or> spec_attempt req c = Success resp c1"
  shows "same_but_net c c1"
proof (cases "spec_resolve req (run c)")
  case (Inl x)
  then show ?thesis using assms by (auto simp add: spec_attempt_def same_but_net_def)
next
  case (Inr q)
  show ?thesis
  proof (cases "spec_validate q c")
    case (Some x)
    then show ?thesis using assms Inr by (auto simp add: spec_attempt_def same_but_net_def)
  next
    case None
    show ?thesis
    proof (cases "spec_serialize q")
      case (Inl x)
      then show ?thesis using assms Inr None by (auto simp add: spec_attempt_def same_but_net_def)
    next
      case p: (Inr payload)
      obtain r err w where d: "spec_dispatch q payload c = ((r, err), w)"
        by (metis surj_pair)
      show ?thesis using assms Inr None p d
        by (cases err) (auto simp add: spec_attempt_def same_but_net_def)
    qed
  qed
qed

lemma bad_method_result:
  assumes "method req \<noteq> ''POST''" "method req \<noteq> ''PATCH''"
  shows "\<exists>e. makeRequest req c = record_error e c"
proof (cases "spec_resolve req (run c)")
  case (Inl e)
  then show ?thesis by (auto simp add: path_resolve)
next
  case (Inr q)
  consider (a) "spaceID (rsm c) = []"
    | (b) "spaceID (rsm c) \<noteq> []" "\<not> IsLinked (api c) (net c)"
    | (c) "spaceID (rsm c) \<noteq> []" "IsLinked (api c) (net c)"
    by blast
  then show ?thesis
  proof cases
    case a
    then show ?thesis by (auto simp add: path_spaceID [OF Inr])
  next
    case b
    then show ?thesis by (auto simp add: path_linked [OF Inr])
  next
    case c
    then show ?thesis using assms by (auto simp add: path_method [OF Inr])
  qed
qed

text \<open>Every run of \<open>makeRequest\<close> records one error, or reaches the handler.\<close>

lemma makeRequest_result:
  "(\<exists>e c1. same_but_net c c1 \<and> transport_outcome req c = None \<and> makeRequest req c = record_error e c1)
   \<or> (\<exists>resp c1. same_but_net c c1 \<and> transport_outcome req c = Some (resp, c1)
         \<and> makeRequest req c = (case onDone req of None \<Rightarrow> c1 | Some f \<Rightarrow> f resp c1))"
proof (cases "method req = ''POST'' \<or> method req = ''PATCH''")
  case True
  show ?thesis
  proof (cases "spec_attempt req c")
    case (Failure e c1)
    then have "same_but_net c c1" using attempt_frame by blast
    moreover have "transport_outcome req c = None"
      by (simp add: outcome_valid [OF True] Failure)
    moreover have "makeRequest req c = record_error e c1"
      by (simp add: makeRequest_refines [OF True] spec_process_def Failure)
    ultimately show ?thesis by blast
  next
    case (Success resp c1)
    then have "same_but_net c c1" using attempt_frame by blast
    moreover have "transport_outcome req c = Some (resp, c1)"
      by (simp add: outcome_valid [OF True] Success)
    moreover have "makeRequest req c = (case onDone req of None \<Rightarrow> c1 | Some f \<Rightarrow> f resp c1)"
      by (simp add: makeRequest_refines [OF True] spec_process_def Success)
    ultimately show ?thesis by blast
  qed
next
  case False
  then have m: "method req \<noteq> ''POST''" "method req \<noteq> ''PATCH''" by simp_all
  then obtain e where "makeRequest req c = record_error e c"
    using bad_method_result by blast
  moreover have "same_but_net c c" by (simp add: same_but_net_def)
  moreover have "transport_outcome req c = None" using m by (rule outcome_invalid)
  ultimately show ?thesis by blast
qed

lemma startRun_onDone_frame:
  "requests (startRun_onDone ext resp c) = requests c \<and> wg (startRun_onDone ext resp c) = wg c
   \<and> created (run (startRun_onDone ext resp c)) = created (run c)
   \<and> rsm (startRun_onDone ext resp c) = rsm c \<and> api (startRun_onDone ext resp c) = api c
   \<and> net (startRun_onDone ext resp c) = net c"
  by (simp add: startRun_onDone_def record_error_def Let_def split: option.splits prod.splits)

lemma startRun_onDone_errors:
  "errors c1 = errors c \<Longrightarrow> prefix (errors c) (errors (startRun_onDone ext resp c1))"
  by (simp add: startRun_onDone_def record_error_def Let_def split: option.splits prod.splits)

lemma harmless_plain:
  assumes "onDone req = None"
  shows "harmless req"
  unfolding harmless_def
proof
  fix c
  show "requests (makeRequest req c) = requests c \<and> wg (makeRequest req c) = wg c \<and>
        created (run (makeRequest req c)) = created (run c) \<and>
        prefix (errors c) (errors (makeRequest req c))"
    using makeRequest_result [of c req] assms
    by (auto simp: same_but_net_def record_error_def)
qed

lemma harmless_startRun: "harmless (startRun_request ext c0)"
  unfolding harmless_def
proof
  fix c
  have "onDone (startRun_request ext c0) = Some (startRun_onDone ext)"
    by (simp add: startRun_request_def)
  then show "requests (makeRequest (startRun_request ext c0) c) = requests c \<and>
        wg (makeRequest (startRun_request ext c0) c) = wg c \<and>
        created (run (makeRequest (startRun_request ext c0) c)) = created (run c) \<and>
        prefix (errors c) (errors (makeRequest (startRun_request ext c0) c))"
    using makeRequest_result [of c "startRun_request ext c0"]
    by (auto simp: same_but_net_def record_error_def startRun_onDone_frame startRun_onDone_errors)
qed

lemma harmless_postTask: "postTask_request c0 task = Some r \<Longrightarrow> harmless r"
  by (rule harmless_plain) (auto simp: postTask_request_def split: option.splits)

lemma harmless_finishRun: "harmless (finishRun_request c0)"
  by (rule harmless_plain) (simp add: finishRun_request_def)

section \<open>The executions of the pool\<close>

subsection \<open>Counting workers, and the cases of a step\<close>

lemma how_many_update:
  "i < length xs \<Longrightarrow>
   how_many P (xs[i := v]) + (if P (xs ! i) then 1 else 0) = how_many P xs + (if P v then 1 else 0)"
proof (induction xs arbitrary: i)
  case Nil
  then show ?case by simp
next
  case (Cons x xs)
  then show ?case by (cases i) (auto simp: how_many_def)
qed

lemma how_many_pos: "i < length xs \<Longrightarrow> P (xs ! i) \<Longrightarrow> 0 < how_many P xs"
  using nth_mem [of i xs] by (auto simp: how_many_def filter_empty_conv)

lemma how_many_mono: "(\<And>x. P x \<Longrightarrow> Q x) \<Longrightarrow> how_many P xs \<le> how_many Q xs"
  by (induction xs) (auto simp: how_many_def)

lemma how_many_zero: "how_many P xs = 0 \<Longrightarrow> i < length xs \<Longrightarrow> \<not> P (xs ! i)"
  using how_many_pos [of i xs P] by auto

lemma how_many_replicate: "how_many P (replicate n x) = (if P x then n else 0)"
  by (simp add: how_many_def)

lemma how_many_le: "how_many P xs \<le> length xs"
  by (simp add: how_many_def)

lemma how_many_witness: "0 < how_many P xs \<Longrightarrow> \<exists>i < length xs. P (xs ! i)"
  by (auto simp: how_many_def filter_empty_conv in_set_conv_nth)


lemma worker_step_cases [consumes 1, case_names panic exits recv_run recv lock test_first test_else
    set_flag unlock_first make_first close_created unlock_else make_else]:
  assumes "worker_step i s = Some (e, s')"
  obtains
    (panic) msg where "e = Panic msg" "s' = s\<lparr>panic := Some msg\<rparr>"
  | (exits) "workers s ! i = AtRange" "requests (client s) = Closed" "wg (client s) \<noteq> 0"
      "e = WorkerDone i"
      "s' = (goto i Returned s)\<lparr>client := (client s)\<lparr>wg := wg (client s) - 1\<rparr>\<rparr>"
  | (recv_run) r where "workers s ! i = AtRange" "requests (client s) \<noteq> Closed"
      "caller s = StartRun_send r" "e = Dequeue i r"
      "s' = (goto i (AtLock r) s)\<lparr>caller := StartRun_wait\<rparr>"
  | (recv) r where "workers s ! i = AtRange" "requests (client s) \<noteq> Closed"
      "caller s = Enqueue_send r" "e = Dequeue i r"
      "s' = (goto i (AtLock r) s)\<lparr>caller := Idle\<rparr>"
  | (lock) r where "workers s ! i = AtLock r" "\<not> mu s" "e = Lock i"
      "s' = (goto i (AtIf r) s)\<lparr>mu := True\<rparr>"
  | (test_first) r where "workers s ! i = AtIf r" "\<not> firstReqDone s" "e = Test i"
      "s' = goto i (AtSet r) s"
  | (test_else) r where "workers s ! i = AtIf r" "firstReqDone s" "e = Test i"
      "s' = goto i (AtUnlockElse r) s"
  | (set_flag) r where "workers s ! i = AtSet r" "e = GateOpen i r"
      "s' = (goto i (AtUnlockFirst r) s)\<lparr>firstReqDone := True\<rparr>"
  | (unlock_first) r where "workers s ! i = AtUnlockFirst r" "mu s" "e = Unlock i"
      "s' = (goto i (AtMakeFirst r) s)\<lparr>mu := False\<rparr>"
  | (make_first) r where "workers s ! i = AtMakeFirst r" "e = Processed i r"
      "s' = (goto i AtCloseCreated s)\<lparr>client := makeRequest r (client s)\<rparr>"
  | (close_created) "workers s ! i = AtCloseCreated" "created (run (client s)) \<noteq> Closed"
      "e = Signal i"
      "s' = (goto i AtRange s)\<lparr>client := (client s)\<lparr>run := (run (client s))\<lparr>created := Closed\<rparr>\<rparr>\<rparr>"
  | (unlock_else) r where "workers s ! i = AtUnlockElse r" "mu s" "e = Unlock i"
      "s' = (goto i (AtMakeElse r) s)\<lparr>mu := False\<rparr>"
  | (make_else) r where "workers s ! i = AtMakeElse r" "e = Processed i r"
      "s' = (goto i AtRange s)\<lparr>client := makeRequest r (client s)\<rparr>"
proof (cases "workers s ! i")
  case AtRange
  then show ?thesis using assms panic exits recv_run recv
    by (auto simp: worker_step_def raise_def split: if_splits caller.splits)
next
  case (AtLock r)
  then show ?thesis using assms lock by (auto simp: worker_step_def split: if_splits)
next
  case (AtIf r)
  then show ?thesis using assms test_first test_else by (auto simp: worker_step_def split: if_splits)
next
  case (AtSet r)
  then show ?thesis using assms set_flag by (auto simp: worker_step_def)
next
  case (AtUnlockFirst r)
  then show ?thesis using assms panic unlock_first
    by (auto simp: worker_step_def raise_def split: if_splits)
next
  case (AtMakeFirst r)
  then show ?thesis using assms make_first by (auto simp: worker_step_def)
next
  case AtCloseCreated
  then show ?thesis using assms panic close_created
    by (auto simp: worker_step_def raise_def split: if_splits)
next
  case (AtUnlockElse r)
  then show ?thesis using assms panic unlock_else
    by (auto simp: worker_step_def raise_def split: if_splits)
next
  case (AtMakeElse r)
  then show ?thesis using assms make_else by (auto simp: worker_step_def)
next
  case Returned
  then show ?thesis using assms by (auto simp: worker_step_def)
qed

lemma caller_step_cases [consumes 1, case_names panic start_run post_task finish_run close
    run_returns close_returns]:
  assumes "caller_step ext s = Some (e, s')"
  obtains
    (panic) msg s0 where "e = Panic msg" "s' = s0\<lparr>panic := Some msg\<rparr>"
      "s0 = s \<or> (\<exists>k ks. calls s = k # ks \<and> s0 = s\<lparr>calls := ks\<rparr>)"
  | (start_run) ks where "caller s = Idle" "calls s = StartRun # ks"
      "e = Enqueue (startRun_request ext (client s))"
      "s' = s\<lparr>calls := ks, caller := StartRun_send (startRun_request ext (client s))\<rparr>"
  | (post_task) task ks r where "caller s = Idle" "calls s = PostTask task # ks"
      "postTask_request (client s) task = Some r" "e = Enqueue r"
      "s' = s\<lparr>calls := ks, caller := Enqueue_send r\<rparr>"
  | (finish_run) ks where "caller s = Idle" "calls s = FinishRun # ks"
      "e = Enqueue (finishRun_request (client s))"
      "s' = s\<lparr>calls := ks, caller := Enqueue_send (finishRun_request (client s))\<rparr>"
  | (close) ks where "caller s = Idle" "calls s = Close # ks" "requests (client s) \<noteq> Closed"
      "e = CloseRequests"
      "s' = s\<lparr>calls := ks, client := (client s)\<lparr>requests := Closed\<rparr>, caller := Close_wait\<rparr>"
  | (run_returns) "caller s = StartRun_wait" "created (run (client s)) = Closed"
      "e = StartRunReturns" "s' = s\<lparr>caller := Idle\<rparr>"
  | (close_returns) "caller s = Close_wait" "wg (client s) = 0"
      "e = CloseReturns" "s' = s\<lparr>caller := Idle\<rparr>"
proof (cases "caller s")
  case Idle
  show ?thesis
  proof (cases "calls s")
    case Nil
    then show ?thesis using assms Idle by (simp add: caller_step_def)
  next
    case (Cons k ks)
    show ?thesis
    proof (cases k)
      case StartRun
      then show ?thesis using assms Idle Cons start_run
        by (auto simp: caller_step_def start_call_def Let_def)
    next
      case (PostTask t)
      then show ?thesis using assms Idle Cons post_task panic
        by (auto simp: caller_step_def start_call_def raise_def split: option.splits)
    next
      case FinishRun
      then show ?thesis using assms Idle Cons finish_run
        by (auto simp: caller_step_def start_call_def Let_def)
    next
      case Close
      then show ?thesis using assms Idle Cons close panic
        by (auto simp: caller_step_def start_call_def raise_def split: if_splits)
    qed
  qed
next
  case (StartRun_send r)
  then show ?thesis using assms panic by (auto simp: caller_step_def raise_def split: if_splits)
next
  case StartRun_wait
  then show ?thesis using assms run_returns by (auto simp: caller_step_def split: if_splits)
next
  case (Enqueue_send r)
  then show ?thesis using assms panic by (auto simp: caller_step_def raise_def split: if_splits)
next
  case Close_wait
  then show ?thesis using assms close_returns by (auto simp: caller_step_def split: if_splits)
qed


lemma chan_neq [simp]: "(x \<noteq> Closed) = (x = Open)" "(x \<noteq> Open) = (x = Closed)"
  by (cases x; simp)+

lemma pool_update:
  assumes "i < length ws"
  shows "how_many holds_mu (ws[i := v]) + (if holds_mu (ws ! i) then 1 else 0)
           = how_many holds_mu ws + (if holds_mu v then 1 else 0)"
    and "how_many opens_gate (ws[i := v]) + (if opens_gate (ws ! i) then 1 else 0)
           = how_many opens_gate ws + (if opens_gate v then 1 else 0)"
    and "how_many at_set (ws[i := v]) + (if at_set (ws ! i) then 1 else 0)
           = how_many at_set ws + (if at_set v then 1 else 0)"
    and "how_many returned (ws[i := v]) + (if returned (ws ! i) then 1 else 0)
           = how_many returned ws + (if returned v then 1 else 0)"
    and "how_many before_gate (ws[i := v]) + (if before_gate (ws ! i) then 1 else 0)
           = how_many before_gate ws + (if before_gate v then 1 else 0)"
    and "how_many risky (ws[i := v]) + (if risky (ws ! i) then 1 else 0)
           = how_many risky ws + (if risky v then 1 else 0)"
  using assms by (rule how_many_update)+

lemma at_set_le_holds: "how_many at_set ws \<le> how_many holds_mu ws"
  by (rule how_many_mono) (auto elim: at_set.elims)

lemma risky_simps [simp]:
  "risky (AtLock r) = (\<not> harmless r)" "risky (AtIf r) = (\<not> harmless r)"
  "risky (AtSet r) = (\<not> harmless r)" "risky (AtUnlockFirst r) = (\<not> harmless r)"
  "risky (AtMakeFirst r) = (\<not> harmless r)" "risky (AtUnlockElse r) = (\<not> harmless r)"
  "risky (AtMakeElse r) = (\<not> harmless r)"
  "\<not> risky AtRange" "\<not> risky AtCloseCreated" "\<not> risky Returned"
  by (simp_all add: risky_def harmful_def)

lemma harmless_at:
  "how_many risky ws = 0 \<Longrightarrow> i < length ws \<Longrightarrow> held (ws ! i) = Some r \<Longrightarrow> harmless r"
  using how_many_zero [of risky ws i] by (simp add: risky_def harmful_def)

lemma worker_step_inv:
  assumes st: "worker_step i s = Some (e, s')" and i: "i < length (workers s)"
    and inv: "pool_inv s"
  shows "pool_inv s'"
  using st
proof (cases rule: worker_step_cases)
  case (panic msg)
  then show ?thesis using inv by (simp add: pool_inv_def)
next
  case exits
  then show ?thesis using inv pool_update [OF i, of Returned]
    by (auto simp: pool_inv_def goto_def)
next
  case (recv_run r)
  then show ?thesis using inv pool_update [OF i, of "AtLock r"]
    by (auto simp: pool_inv_def goto_def harmful_def)
next
  case (recv r)
  then show ?thesis using inv pool_update [OF i, of "AtLock r"]
    by (auto simp: pool_inv_def goto_def harmful_def)
next
  case (lock r)
  then show ?thesis using inv pool_update [OF i, of "AtIf r"]
    by (auto simp: pool_inv_def goto_def)
next
  case (test_first r)
  then show ?thesis using inv pool_update [OF i, of "AtSet r"]
    by (auto simp: pool_inv_def goto_def)
next
  case (test_else r)
  then show ?thesis using inv pool_update [OF i, of "AtUnlockElse r"]
    by (auto simp: pool_inv_def goto_def)
next
  case (set_flag r)
  then show ?thesis using inv pool_update [OF i, of "AtUnlockFirst r"] at_set_le_holds [of "workers s"]
    by (auto simp: pool_inv_def goto_def split: if_splits)
next
  case (unlock_first r)
  then show ?thesis using inv pool_update [OF i, of "AtMakeFirst r"]
    by (auto simp: pool_inv_def goto_def)
next
  case (make_first r)
  have "harmless r" using inv i make_first(1) by (auto simp: pool_inv_def intro: harmless_at)
  then show ?thesis using make_first inv pool_update [OF i, of "AtCloseCreated"]
    by (auto simp: pool_inv_def goto_def harmless_def)
next
  case close_created
  then show ?thesis using inv pool_update [OF i, of "AtRange"]
    by (auto simp: pool_inv_def goto_def split: if_splits)
next
  case (unlock_else r)
  then show ?thesis using inv pool_update [OF i, of "AtMakeElse r"]
    by (auto simp: pool_inv_def goto_def)
next
  case (make_else r)
  have "harmless r" using inv i make_else(1) by (auto simp: pool_inv_def intro: harmless_at)
  then show ?thesis using make_else inv pool_update [OF i, of "AtRange"]
    by (auto simp: pool_inv_def goto_def harmless_def)
qed

lemma pool_inv_frame:
  assumes "workers s' = workers s" "mu s' = mu s" "firstReqDone s' = firstReqDone s"
    "client s' = client s" "caller s' = caller s"
  shows "pool_inv s' = pool_inv s"
  by (simp add: pool_inv_def assms)

lemma caller_step_inv:
  assumes st: "caller_step ext s = Some (e, s')" and inv: "pool_inv s"
  shows "pool_inv s'"
  using st
proof (cases rule: caller_step_cases)
  case (panic msg s0)
  from panic(3) have "workers s0 = workers s \<and> mu s0 = mu s \<and> firstReqDone s0 = firstReqDone s
      \<and> client s0 = client s \<and> caller s0 = caller s"
    by (elim disjE exE conjE) simp_all
  then have "pool_inv s' = pool_inv s"
    using panic(2) by (intro pool_inv_frame) simp_all
  then show ?thesis using inv by simp
next
  case (start_run ks)
  then show ?thesis using inv harmless_startRun [of ext "client s"]
    by (simp add: pool_inv_def harmful_def)
next
  case (post_task task ks r)
  then show ?thesis using inv harmless_postTask [of "client s" task r]
    by (simp add: pool_inv_def harmful_def)
next
  case (finish_run ks)
  then show ?thesis using inv harmless_finishRun [of "client s"]
    by (simp add: pool_inv_def harmful_def)
next
  case (close ks)
  then show ?thesis using inv by (simp add: pool_inv_def harmful_def)
next
  case run_returns
  then show ?thesis using inv by (simp add: pool_inv_def harmful_def)
next
  case close_returns
  then show ?thesis using inv by (simp add: pool_inv_def harmful_def)
qed

lemma step_inv:
  assumes "step ext t s = Some (e, s')" and "pool_inv s"
  shows "pool_inv s'"
proof (cases t)
  case Caller
  then show ?thesis using assms caller_step_inv [of ext s e s']
    by (simp add: step_def split: if_splits)
next
  case (Worker i)
  then show ?thesis using assms worker_step_inv [of i s e s']
    by (simp add: step_def split: if_splits)
qed

lemma exec_inv:
  "exec ext sched s = Some (es, s') \<Longrightarrow> pool_inv s \<Longrightarrow> pool_inv s'"
proof (induction sched arbitrary: s es)
  case Nil
  then show ?case by simp
next
  case (Cons t ts)
  then show ?case
    by (auto split: option.splits prod.splits dest: step_inv)
qed

lemma newSpacesClient_inv: "pool_inv ((newSpacesClient a m w)\<lparr>calls := cs\<rparr>)"
  by (simp add: pool_inv_def newSpacesClient_def how_many_replicate processors_def harmful_def)

subsection \<open>Every execution ends\<close>

lemma cost_update:
  "i < length ws \<Longrightarrow>
   sum_list (map worker_cost (ws[i := v])) + worker_cost (ws ! i)
     = sum_list (map worker_cost ws) + worker_cost v"
proof (induction ws arbitrary: i)
  case Nil
  then show ?case by simp
next
  case (Cons x xs)
  then show ?case by (cases i) auto
qed

lemma worker_step_cost:
  assumes st: "worker_step i s = Some (e, s')" and i: "i < length (workers s)"
    and p: "panic s = None"
  shows "cost s' < cost s"
  using st
proof (cases rule: worker_step_cases)
  case (panic msg)
  then show ?thesis using p by (simp add: cost_def)
next
  case exits
  then show ?thesis using p cost_update [OF i, of Returned] by (simp add: cost_def goto_def)
next
  case (recv_run r)
  then show ?thesis using p cost_update [OF i, of "AtLock r"] by (simp add: cost_def goto_def)
next
  case (recv r)
  then show ?thesis using p cost_update [OF i, of "AtLock r"] by (simp add: cost_def goto_def)
next
  case (lock r)
  then show ?thesis using p cost_update [OF i, of "AtIf r"] by (simp add: cost_def goto_def)
next
  case (test_first r)
  then show ?thesis using p cost_update [OF i, of "AtSet r"] by (simp add: cost_def goto_def)
next
  case (test_else r)
  then show ?thesis using p cost_update [OF i, of "AtUnlockElse r"] by (simp add: cost_def goto_def)
next
  case (set_flag r)
  then show ?thesis using p cost_update [OF i, of "AtUnlockFirst r"] by (simp add: cost_def goto_def)
next
  case (unlock_first r)
  then show ?thesis using p cost_update [OF i, of "AtMakeFirst r"] by (simp add: cost_def goto_def)
next
  case (make_first r)
  then show ?thesis using p cost_update [OF i, of "AtCloseCreated"] by (simp add: cost_def goto_def)
next
  case close_created
  then show ?thesis using p cost_update [OF i, of "AtRange"] by (simp add: cost_def goto_def)
next
  case (unlock_else r)
  then show ?thesis using p cost_update [OF i, of "AtMakeElse r"] by (simp add: cost_def goto_def)
next
  case (make_else r)
  then show ?thesis using p cost_update [OF i, of "AtRange"] by (simp add: cost_def goto_def)
qed

lemma caller_step_cost:
  assumes st: "caller_step ext s = Some (e, s')" and p: "panic s = None"
  shows "cost s' < cost s"
  using st
proof (cases rule: caller_step_cases)
  case (panic msg s0)
  from panic(3) have "cost s0 \<le> cost s"
    by (elim disjE exE conjE) (simp_all add: cost_def)
  moreover have "cost s' < cost s0"
    using panic(2,3) p by (elim disjE exE conjE) (simp_all add: cost_def)
  ultimately show ?thesis by simp
qed (use p in \<open>simp_all add: cost_def\<close>)

lemma step_cost:
  assumes "step ext t s = Some (e, s')"
  shows "cost s' < cost s"
proof (cases t)
  case Caller
  then show ?thesis using assms caller_step_cost [of ext s e s']
    by (simp add: step_def split: if_splits)
next
  case (Worker i)
  then show ?thesis using assms worker_step_cost [of i s e s']
    by (simp add: step_def split: if_splits)
qed

lemma exec_cost:
  "exec ext sched s = Some (es, s') \<Longrightarrow> length sched + cost s' \<le> cost s"
proof (induction sched arbitrary: s es)
  case Nil
  then show ?case by simp
next
  case (Cons t ts)
  from Cons.prems obtain e s1 es1 where
    st: "step ext t s = Some (e, s1)" and ex: "exec ext ts s1 = Some (es1, s')"
    by (auto split: option.splits prod.splits)
  from Cons.IH [OF ex] step_cost [OF st] show ?case by simp
qed

subsection \<open>No execution hangs\<close>

lemma worker_blocked:
  assumes "worker_step i s = None"
  shows "(workers s ! i = AtRange \<and> requests (client s) = Open \<and> sending (caller s) = None)
         \<or> (\<exists>r. workers s ! i = AtLock r \<and> mu s) \<or> workers s ! i = Returned"
proof (cases "workers s ! i")
  case AtRange
  then show ?thesis using assms
    by (cases "caller s") (auto simp: worker_step_def raise_def split: if_splits)
qed (use assms in \<open>auto simp: worker_step_def raise_def split: if_splits\<close>)

lemma stuck_worker:
  assumes "stuck ext s" "panic s = None" "i < length (workers s)"
  shows "worker_step i s = None"
proof -
  have "Worker i \<in> set (threads s)" using assms(3) by (simp add: threads_def)
  then have "blocked ext s (Worker i)" using assms(1) by (simp add: stuck_def list_all_iff)
  then show ?thesis using assms(2,3) by (simp add: blocked_def step_def split: option.splits)
qed

lemma stuck_caller:
  assumes "stuck ext s" "panic s = None"
  shows "caller_step ext s = None"
proof -
  have "blocked ext s Caller" using assms(1) by (simp add: stuck_def threads_def)
  then show ?thesis using assms(2) by (simp add: blocked_def step_def split: option.splits)
qed

lemma how_many_none: "(\<And>i. i < length xs \<Longrightarrow> \<not> P (xs ! i)) \<Longrightarrow> how_many P xs = 0"
  by (auto simp: how_many_def filter_empty_conv in_set_conv_nth)

lemma no_deadlock:
  assumes inv: "pool_inv s" and st: "stuck ext s" and p: "panic s = None"
  shows "finished s"
proof -
  let ?ws = "workers s"
  note b = worker_blocked [OF stuck_worker [OF st p]]
  have nomu: "\<not> mu s"
  proof
    assume m: "mu s"
    then have "0 < how_many holds_mu ?ws" using inv by (simp add: pool_inv_def)
    then obtain j where j: "j < length ?ws" "holds_mu (?ws ! j)"
      using how_many_witness by blast
    from b [OF j(1)] j(2) show False by auto
  qed
  have idle: "?ws ! i = AtRange \<and> requests (client s) = Open \<and> sending (caller s) = None
              \<or> ?ws ! i = Returned" if "i < length ?ws" for i
    using b [OF that] nomu by auto
  have og: "how_many opens_gate ?ws = 0"
    by (rule how_many_none) (use idle in fastforce)
  have bg: "how_many before_gate ?ws = 0"
    by (rule how_many_none) (use idle in fastforce)
  have ne: "0 < length ?ws" using inv by (simp add: pool_inv_def)
  note c = stuck_caller [OF st p]
  show ?thesis
  proof (cases "caller s")
    case Idle
    then show ?thesis using c p
      by (cases "calls s") (auto simp: finished_def caller_step_def start_call_def raise_def Let_def
          split: call.splits option.splits if_splits)
  next
    case (StartRun_send r)
    then have o: "requests (client s) = Open" using c
      by (cases "requests (client s)") (auto simp: caller_step_def raise_def)
    then have "how_many returned ?ws = 0" using inv by (simp add: pool_inv_def)
    then have "\<not> returned (?ws ! 0)" using ne how_many_zero by blast
    then show ?thesis using idle [OF ne] StartRun_send by auto
  next
    case StartRun_wait
    then have o: "created (run (client s)) = Open" using c
      by (cases "created (run (client s))") (auto simp: caller_step_def)
    show ?thesis using inv o og bg StartRun_wait by (auto simp: pool_inv_def split: if_splits)
  next
    case (Enqueue_send r)
    then have o: "requests (client s) = Open" using c
      by (cases "requests (client s)") (auto simp: caller_step_def raise_def)
    then have "how_many returned ?ws = 0" using inv by (simp add: pool_inv_def)
    then have "\<not> returned (?ws ! 0)" using ne how_many_zero by blast
    then show ?thesis using idle [OF ne] Enqueue_send by auto
  next
    case Close_wait
    then have w: "wg (client s) \<noteq> 0" using c by (auto simp: caller_step_def split: if_splits)
    have cl: "requests (client s) = Closed" using inv Close_wait by (simp add: pool_inv_def)
    have "?ws ! i = Returned" if "i < length ?ws" for i using idle [OF that] cl by auto
    then have "\<forall>x\<in>set ?ws. returned x" by (auto simp: in_set_conv_nth)
    then have "how_many returned ?ws = length ?ws" by (simp add: how_many_def)
    then show ?thesis using inv w by (simp add: pool_inv_def)
  qed
qed

subsection \<open>A caller that keeps to the order of use never sees a panic\<close>











subsection \<open>The signal, once set, stays set\<close>

lemma worker_step_created:
  assumes st: "worker_step i s = Some (e, s')" and i: "i < length (workers s)"
    and inv: "pool_inv s"
  shows "(\<exists>j. e = Signal j) \<and> created (run (client s')) = Closed
         \<or> (\<forall>j. e \<noteq> Signal j) \<and> e \<noteq> StartRunReturns
            \<and> created (run (client s')) = created (run (client s))"
  using st
proof (cases rule: worker_step_cases)
  case (make_first r)
  have "harmless r" using inv i make_first(1) by (auto simp: pool_inv_def intro: harmless_at)
  then show ?thesis using make_first by (auto simp: goto_def harmless_def)
next
  case (make_else r)
  have "harmless r" using inv i make_else(1) by (auto simp: pool_inv_def intro: harmless_at)
  then show ?thesis using make_else by (auto simp: goto_def harmless_def)
qed (auto simp: goto_def)

lemma caller_step_created:
  assumes st: "caller_step ext s = Some (e, s')"
  shows "(\<forall>j. e \<noteq> Signal j) \<and> created (run (client s')) = created (run (client s))
         \<and> (e = StartRunReturns \<longrightarrow> created (run (client s)) = Closed)"
  using st by (cases rule: caller_step_cases) auto

lemma step_created:
  assumes "step ext t s = Some (e, s')" and "pool_inv s"
  shows "(\<exists>j. e = Signal j) \<and> created (run (client s')) = Closed
         \<or> (\<forall>j. e \<noteq> Signal j) \<and> created (run (client s')) = created (run (client s))
            \<and> (e = StartRunReturns \<longrightarrow> created (run (client s)) = Closed)"
proof (cases t)
  case Caller
  then show ?thesis using assms caller_step_created [of ext s e s']
    by (simp add: step_def split: if_splits)
next
  case (Worker i)
  then have "worker_step i s = Some (e, s')" "i < length (workers s)"
    using assms by (simp_all add: step_def split: if_splits)
  from worker_step_created [OF this assms(2)] show ?thesis by blast
qed

lemma returns_after_signal_other:
  "(\<forall>j. e \<noteq> Signal j) \<Longrightarrow> e \<noteq> StartRunReturns \<Longrightarrow>
   returns_after_signal b (e # es) = returns_after_signal b es"
  by (cases e) simp_all

lemma exec_returns_after_signal:
  "exec ext sched s = Some (es, s') \<Longrightarrow> pool_inv s \<Longrightarrow>
   returns_after_signal (created (run (client s)) = Closed) es
   \<and> (created (run (client s)) = Closed \<longrightarrow> created (run (client s')) = Closed)"
proof (induction sched arbitrary: s es)
  case Nil
  then show ?case by simp
next
  case (Cons t ts)
  from Cons.prems obtain e s1 es1 where
    st: "step ext t s = Some (e, s1)" and ex: "exec ext ts s1 = Some (es1, s')"
    and es: "es = e # es1"
    by (auto split: option.splits prod.splits)
  note ih = Cons.IH [OF ex step_inv [OF st Cons.prems(2)]]
  from step_created [OF st Cons.prems(2)] show ?case
  proof
    assume "(\<exists>j. e = Signal j) \<and> created (run (client s1)) = Closed"
    then show ?thesis using ih es by auto
  next
    assume a: "(\<forall>j. e \<noteq> Signal j) \<and> created (run (client s1)) = created (run (client s))
            \<and> (e = StartRunReturns \<longrightarrow> created (run (client s)) = Closed)"
    show ?thesis
    proof (cases "e = StartRunReturns")
      case True
      then show ?thesis using a ih es by simp
    next
      case False
      then show ?thesis using a ih es by (simp add: returns_after_signal_other)
    qed
  qed
qed

subsection \<open>One worker opens the gate, and it sets the signal\<close>

lemma at_set_flag:
  "pool_inv s \<Longrightarrow> j < length (workers s) \<Longrightarrow> workers s ! j = AtSet r \<Longrightarrow> \<not> firstReqDone s"
  using how_many_pos [of j "workers s" at_set] by (auto simp: pool_inv_def)

lemma opens_gate_flag:
  "pool_inv s \<Longrightarrow> j < length (workers s) \<Longrightarrow> opens_gate (workers s ! j) \<Longrightarrow>
   firstReqDone s \<and> created (run (client s)) = Open"
  using how_many_pos [of j "workers s" opens_gate] by (auto simp: pool_inv_def split: if_splits)

lemma opens_gate_unique:
  assumes inv: "pool_inv s" and i: "i < length (workers s)" and j: "j < length (workers s)"
    and pi: "opens_gate (workers s ! i)" and pj: "opens_gate (workers s ! j)"
  shows "i = j"
proof (rule ccontr)
  assume ne: "i \<noteq> j"
  have "how_many opens_gate (workers s) \<le> 1" using inv by (simp add: pool_inv_def)
  then have "how_many opens_gate ((workers s)[i := AtRange]) = 0"
    using how_many_update [OF i, of opens_gate AtRange] pi by simp
  moreover have "0 < how_many opens_gate ((workers s)[i := AtRange])"
    by (rule how_many_pos [of j]) (use j ne pj in simp_all)
  ultimately show False by simp
qed

lemma closed_flag: "pool_inv s \<Longrightarrow> created (run (client s)) = Closed \<Longrightarrow> firstReqDone s"
  by (simp add: pool_inv_def)

lemma held_harmless:
  "pool_inv s \<Longrightarrow> j < length (workers s) \<Longrightarrow> held (workers s ! j) = Some r \<Longrightarrow> harmless r"
  by (auto simp: pool_inv_def intro: harmless_at)

lemma worker_step_gate:
  assumes st: "worker_step j s = Some (e, s')" and j: "j < length (workers s)"
    and inv: "pool_inv s" and rel: "gate_rel g s"
  shows "\<exists>g'. gate_step g e = Some g' \<and> gate_rel g' s'"
proof (cases g)
  case Shut
  from st show ?thesis
  proof (cases rule: worker_step_cases)
    case (set_flag r)
    then show ?thesis using Shut rel j inv by (auto simp: goto_def pool_inv_def)
  next
    case (unlock_first r)
    then show ?thesis using Shut rel opens_gate_flag [OF inv j] by auto
  next
    case (make_first r)
    then show ?thesis using Shut rel opens_gate_flag [OF inv j] by auto
  next
    case close_created
    then show ?thesis using Shut rel opens_gate_flag [OF inv j] by auto
  qed (use Shut rel in \<open>auto simp: goto_def\<close>)
next
  case (Opened i r)
  then have i: "i < length (workers s)" and og: "opens_gate (workers s ! i)"
    and fl: "firstReqDone s" and op: "created (run (client s)) = Open"
    and pc: "workers s ! i = AtUnlockFirst r \<or> workers s ! i = AtMakeFirst r"
    using rel by auto
  note u = opens_gate_unique [OF inv j i _ og]
  from st show ?thesis
  proof (cases rule: worker_step_cases)
    case (set_flag q)
    then show ?thesis using at_set_flag [OF inv j] fl by auto
  next
    case (unlock_first q)
    then have "j = i" using u by simp
    then show ?thesis using unlock_first Opened fl op i pc by (auto simp: goto_def)
  next
    case (make_first q)
    then have "j = i" using u by simp
    then show ?thesis using make_first Opened fl op i pc held_harmless [OF inv j, of q]
      by (auto simp: goto_def harmless_def)
  next
    case close_created
    then have "j = i" using u by simp
    then show ?thesis using close_created pc by auto
  next
    case (make_else q)
    then have "j \<noteq> i" using pc by auto
    then show ?thesis using make_else Opened fl op i pc held_harmless [OF inv j, of q]
      by (auto simp: goto_def harmless_def)
  next
    case (panic msg)
    then show ?thesis using Opened fl op i pc by auto
  next
    case exits
    then have "j \<noteq> i" using pc by auto
    then show ?thesis using exits Opened fl op i pc by (auto simp: goto_def)
  next
    case (recv_run q)
    then have "j \<noteq> i" using pc by auto
    then show ?thesis using recv_run Opened fl op i pc by (auto simp: goto_def)
  next
    case (recv q)
    then have "j \<noteq> i" using pc by auto
    then show ?thesis using recv Opened fl op i pc by (auto simp: goto_def)
  next
    case (lock q)
    then have "j \<noteq> i" using pc by auto
    then show ?thesis using lock Opened fl op i pc by (auto simp: goto_def)
  next
    case (test_first q)
    then show ?thesis using fl by simp
  next
    case (test_else q)
    then have "j \<noteq> i" using pc by auto
    then show ?thesis using test_else Opened fl op i pc by (auto simp: goto_def)
  next
    case (unlock_else q)
    then have "j \<noteq> i" using pc by auto
    then show ?thesis using unlock_else Opened fl op i pc by (auto simp: goto_def)
  qed
next
  case (Served i r)
  then have i: "i < length (workers s)" and og: "opens_gate (workers s ! i)"
    and fl: "firstReqDone s" and op: "created (run (client s)) = Open"
    and pc: "workers s ! i = AtCloseCreated"
    using rel by auto
  note u = opens_gate_unique [OF inv j i _ og]
  from st show ?thesis
  proof (cases rule: worker_step_cases)
    case (set_flag q)
    then show ?thesis using at_set_flag [OF inv j] fl by auto
  next
    case (unlock_first q)
    then have "j = i" using u by simp
    then show ?thesis using unlock_first pc by auto
  next
    case (make_first q)
    then have "j = i" using u by simp
    then show ?thesis using make_first pc by auto
  next
    case close_created
    then have "j = i" using u by simp
    then show ?thesis using close_created Served by (auto simp: goto_def)
  next
    case (make_else q)
    then have "j \<noteq> i" using pc by auto
    then show ?thesis using make_else Served fl op i pc held_harmless [OF inv j, of q]
      by (auto simp: goto_def harmless_def)
  next
    case (panic msg)
    then show ?thesis using Served fl op i pc by auto
  next
    case exits
    then have "j \<noteq> i" using pc by auto
    then show ?thesis using exits Served fl op i pc by (auto simp: goto_def)
  next
    case (recv_run q)
    then have "j \<noteq> i" using pc by auto
    then show ?thesis using recv_run Served fl op i pc by (auto simp: goto_def)
  next
    case (recv q)
    then have "j \<noteq> i" using pc by auto
    then show ?thesis using recv Served fl op i pc by (auto simp: goto_def)
  next
    case (lock q)
    then have "j \<noteq> i" using pc by auto
    then show ?thesis using lock Served fl op i pc by (auto simp: goto_def)
  next
    case (test_first q)
    then show ?thesis using fl by simp
  next
    case (test_else q)
    then have "j \<noteq> i" using pc by auto
    then show ?thesis using test_else Served fl op i pc by (auto simp: goto_def)
  next
    case (unlock_else q)
    then have "j \<noteq> i" using pc by auto
    then show ?thesis using unlock_else Served fl op i pc by (auto simp: goto_def)
  qed
next
  case (Signalled i r)
  then have cl: "created (run (client s)) = Closed" using rel by simp
  then have fl: "firstReqDone s" using closed_flag [OF inv] by simp
  from st show ?thesis
  proof (cases rule: worker_step_cases)
    case (set_flag q)
    then show ?thesis using at_set_flag [OF inv j] fl by auto
  next
    case close_created
    then show ?thesis using cl by simp
  next
    case (make_first q)
    then show ?thesis using Signalled cl held_harmless [OF inv j, of q]
      by (auto simp: goto_def harmless_def)
  next
    case (make_else q)
    then show ?thesis using Signalled cl held_harmless [OF inv j, of q]
      by (auto simp: goto_def harmless_def)
  qed (use Signalled cl in \<open>auto simp: goto_def\<close>)
qed

lemma gate_rel_frame:
  assumes "workers s' = workers s" "firstReqDone s' = firstReqDone s"
    "created (run (client s')) = created (run (client s))"
  shows "gate_rel g s' = gate_rel g s"
  by (cases g) (simp_all add: assms)

lemma gate_step_caller:
  "(\<forall>i r. e \<noteq> GateOpen i r) \<Longrightarrow> (\<forall>i r. e \<noteq> Processed i r) \<Longrightarrow> (\<forall>i. e \<noteq> Signal i) \<Longrightarrow>
   gate_step g e = Some g"
  by (cases g; cases e) simp_all

lemma caller_step_gate:
  assumes st: "caller_step ext s = Some (e, s')" and rel: "gate_rel g s"
  shows "gate_step g e = Some g \<and> gate_rel g s'"
proof -
  have "gate_step g e = Some g"
    using st by (cases rule: caller_step_cases) (simp_all add: gate_step_caller)
  moreover have "workers s' = workers s \<and> firstReqDone s' = firstReqDone s
      \<and> created (run (client s')) = created (run (client s))"
    using st by (cases rule: caller_step_cases) auto
  then have "gate_rel g s' = gate_rel g s"
    by (intro gate_rel_frame) simp_all
  ultimately show ?thesis using rel by simp
qed

lemma step_gate:
  assumes "step ext t s = Some (e, s')" and "pool_inv s" and "gate_rel g s"
  shows "\<exists>g'. gate_step g e = Some g' \<and> gate_rel g' s'"
proof (cases t)
  case Caller
  then show ?thesis using assms caller_step_gate [of ext s e s' g]
    by (simp add: step_def split: if_splits)
next
  case (Worker i)
  then have "worker_step i s = Some (e, s')" "i < length (workers s)"
    using assms by (simp_all add: step_def split: if_splits)
  from worker_step_gate [OF this assms(2,3)] show ?thesis .
qed

lemma exec_gate:
  "exec ext sched s = Some (es, s') \<Longrightarrow> pool_inv s \<Longrightarrow> gate_rel g s \<Longrightarrow>
   \<exists>g'. gate_run g es = Some g' \<and> gate_rel g' s'"
proof (induction sched arbitrary: s es g)
  case Nil
  then show ?case by simp
next
  case (Cons t ts)
  from Cons.prems obtain e s1 es1 where
    st: "step ext t s = Some (e, s1)" and ex: "exec ext ts s1 = Some (es1, s')"
    and es: "es = e # es1"
    by (auto split: option.splits prod.splits)
  from step_gate [OF st Cons.prems(2,3)] obtain g1 where
    g1: "gate_step g e = Some g1" "gate_rel g1 s1" by blast
  from Cons.IH [OF ex step_inv [OF st Cons.prems(2)] g1(2)] show ?case
    using es g1(1) by simp
qed

text \<open>What a run of the gate says about the events.\<close>

lemma gate_run_Shut_opener:
  "gate_run g es = Some g' \<Longrightarrow>
   (case g' of Shut \<Rightarrow> g = Shut \<and> opener es = None
    | _ \<Rightarrow> True)"
proof (induction es arbitrary: g)
  case Nil
  then show ?case by (cases g') simp_all
next
  case (Cons e es)
  then obtain g1 where g1: "gate_step g e = Some g1" "gate_run g1 es = Some g'"
    by (auto split: option.splits)
  show ?case
  proof (cases g')
    case Shut
    then have a: "g1 = Shut" "opener es = None" using Cons.IH [OF g1(2)] by simp_all
    have "g = Shut \<and> (\<forall>i r. e \<noteq> GateOpen i r)"
      using g1(1) a(1) by (cases g; cases e) (auto split: if_splits)
    then show ?thesis using Shut a(2) by (cases e) auto
  qed simp_all
qed

lemma gate_run_counts:
  "gate_run g es = Some g' \<Longrightarrow>
   how_many opens es \<le> (case g of Shut \<Rightarrow> 1 | _ \<Rightarrow> 0)
   \<and> how_many signals es \<le> (case g of Signalled i r \<Rightarrow> 0 | _ \<Rightarrow> 1)"
proof (induction es arbitrary: g)
  case Nil
  then show ?case by (simp add: how_many_def)
next
  case (Cons e es)
  then obtain g1 where g1: "gate_step g e = Some g1" "gate_run g1 es = Some g'"
    by (auto split: option.splits)
  note ih = Cons.IH [OF g1(2)]
  show ?case
  proof (cases "opens e \<or> signals e")
    case True
    then show ?thesis using g1(1) ih
      by (cases g; cases e) (auto simp: how_many_def split: if_splits)
  next
    case False
    then have "g1 = g \<or> (\<exists>i r. g = Opened i r \<and> g1 = Served i r)"
      using g1(1) by (cases g; cases e) (auto split: if_splits)
    then show ?thesis using False ih by (auto simp: how_many_def)
  qed
qed

subsection \<open>When the first call is startRun, its worker opens the gate\<close>

lemma first_in_flight_pc:
  assumes "first_in_flight i r s"
  shows "workers s ! i = AtLock r \<or> workers s ! i = AtIf r \<or> workers s ! i = AtSet r"
  using assms by (cases "workers s ! i") (auto simp: first_in_flight_def)

lemma exec_first_in_flight:
  "exec ext sched s = Some (es, s') \<Longrightarrow> pool_inv s \<Longrightarrow> first_in_flight i r s \<Longrightarrow>
   first_dequeue es = None \<and> (opener es = None \<or> opener es = Some (i, r))
   \<or> opener es = Some (i, r)"
proof (induction sched arbitrary: s es)
  case Nil
  then show ?case by simp
next
  case (Cons t ts)
  from Cons.prems obtain e s1 es1 where
    st: "step ext t s = Some (e, s1)" and ex: "exec ext ts s1 = Some (es1, s')"
    and es: "es = e # es1"
    by (auto split: option.splits prod.splits)
  note inv = Cons.prems(2) and f = Cons.prems(3)
  have op: "created (run (client s)) = Open"
    using inv f by (cases "created (run (client s))") (auto simp: pool_inv_def first_in_flight_def)
  show ?case
  proof (cases t)
    case Caller
    then show ?thesis using st f op by (auto simp: step_def caller_step_def first_in_flight_def split: if_splits)
  next
    case (Worker j)
    then have ws: "worker_step j s = Some (e, s1)" and j: "j < length (workers s)"
      using st by (simp_all add: step_def split: if_splits)
    have ji: "j = i"
    proof (rule ccontr)
      assume "j \<noteq> i"
      then have "workers s ! j = AtRange" using f j by (simp add: first_in_flight_def)
      then show False using ws f by (auto simp: worker_step_def first_in_flight_def)
    qed
    from first_in_flight_pc [OF f] show ?thesis
    proof (elim disjE)
      assume pc: "workers s ! i = AtLock r"
      then have e: "e = Lock i" and s1: "s1 = (goto i (AtIf r) s)\<lparr>mu := True\<rparr>"
        using ws ji by (auto simp: worker_step_def split: if_splits)
      have "first_in_flight i r s1" using f s1 by (auto simp: first_in_flight_def goto_def)
      from Cons.IH [OF ex step_inv [OF st inv] this] show ?thesis using es e by simp
    next
      assume pc: "workers s ! i = AtIf r"
      then have e: "e = Test i" and s1: "s1 = goto i (AtSet r) s"
        using ws ji f by (auto simp: worker_step_def first_in_flight_def split: if_splits)
      have "first_in_flight i r s1" using f s1 by (auto simp: first_in_flight_def goto_def)
      from Cons.IH [OF ex step_inv [OF st inv] this] show ?thesis using es e by simp
    next
      assume pc: "workers s ! i = AtSet r"
      then have "e = GateOpen i r" using ws ji by (auto simp: worker_step_def)
      then show ?thesis using es by simp
    qed
  qed
qed

lemma exec_first_send:
  assumes ex: "exec ext sched s = Some (es, s')" and inv: "pool_inv s"
    and c: "caller s = StartRun_send r" and fl: "\<not> firstReqDone s"
    and op: "requests (client s) = Open"
    and ws: "\<forall>j < length (workers s). workers s ! j = AtRange"
  shows "es = [] \<or> (\<exists>i. first_dequeue es = Some (i, r) \<and> (opener es = None \<or> opener es = Some (i, r)))"
proof (cases sched)
  case Nil
  then show ?thesis using ex by simp
next
  case (Cons t ts)
  from ex Cons obtain e s1 es1 where
    st: "step ext t s = Some (e, s1)" and ex1: "exec ext ts s1 = Some (es1, s')"
    and es: "es = e # es1"
    by (auto split: option.splits prod.splits)
  show ?thesis
  proof (cases t)
    case Caller
    then show ?thesis using st c op by (auto simp: step_def caller_step_def split: if_splits)
  next
    case (Worker j)
    then have w: "worker_step j s = Some (e, s1)" and j: "j < length (workers s)"
      using st by (simp_all add: step_def split: if_splits)
    have pc: "workers s ! j = AtRange" using ws j by simp
    then have e: "e = Dequeue j r" and s1: "s1 = (goto j (AtLock r) s)\<lparr>caller := StartRun_wait\<rparr>"
      using w c op by (auto simp: worker_step_def)
    have "first_in_flight j r s1"
      using s1 fl op j ws by (auto simp: first_in_flight_def goto_def)
    from exec_first_in_flight [OF ex1 step_inv [OF st inv] this]
    show ?thesis using es e by auto
  qed
qed

lemma exec_startRun_first:
  assumes ex: "exec ext sched ((newSpacesClient a m w)\<lparr>calls := StartRun # cs\<rparr>) = Some (es, s')"
  shows "opener es = None
         \<or> (\<exists>i. opener es = Some (i, startRun_request ext (client (newSpacesClient a m w)))
                \<and> first_dequeue es = opener es)"
proof (cases sched)
  case Nil
  then show ?thesis using ex by simp
next
  case (Cons t ts)
  let ?s = "(newSpacesClient a m w)\<lparr>calls := StartRun # cs\<rparr>"
  let ?r = "startRun_request ext (client (newSpacesClient a m w))"
  from ex Cons obtain e s1 es1 where
    st: "step ext t ?s = Some (e, s1)" and ex1: "exec ext ts s1 = Some (es1, s')"
    and es: "es = e # es1"
    by (auto split: option.splits prod.splits)
  have inv: "pool_inv ?s" by (rule newSpacesClient_inv)
  show ?thesis
  proof (cases t)
    case Caller
    then have e: "e = Enqueue ?r" and s1: "s1 = ?s\<lparr>calls := cs, caller := StartRun_send ?r\<rparr>"
      using st by (auto simp: step_def caller_step_def start_call_def newSpacesClient_def Let_def)
    have "es1 = [] \<or> (\<exists>i. first_dequeue es1 = Some (i, ?r) \<and> (opener es1 = None \<or> opener es1 = Some (i, ?r)))"
      by (rule exec_first_send [OF ex1 step_inv [OF st inv]])
         (simp_all add: s1 newSpacesClient_def)
    then show ?thesis using es e by auto
  next
    case (Worker j)
    then show ?thesis using st
      by (auto simp: step_def worker_step_def newSpacesClient_def split: if_splits)
  qed
qed

subsection \<open>A caller that finishes has returned from its calls\<close>

lemma exec_after_panic:
  "exec ext sched s = Some (es, s') \<Longrightarrow> panic s \<noteq> None \<Longrightarrow> s' = s"
  by (cases sched) (auto simp: step_def)

lemma step_panics:
  assumes "step ext t s = Some (Panic msg, s')"
  shows "panic s' \<noteq> None"
proof (cases t)
  case Caller
  then have "caller_step ext s = Some (Panic msg, s')"
    using assms by (simp add: step_def split: if_splits)
  then show ?thesis by (cases rule: caller_step_cases) auto
next
  case (Worker i)
  then have "worker_step i s = Some (Panic msg, s')"
    using assms by (simp add: step_def split: if_splits)
  then show ?thesis by (cases rule: worker_step_cases) auto
qed



lemma step_startRun_pending:
  assumes st: "step ext t s = Some (e, s')"
    and p: "StartRun \<in> set (calls s) \<or> (\<exists>r. caller s = StartRun_send r) \<or> caller s = StartRun_wait"
  shows "e = StartRunReturns \<or> (\<exists>msg. e = Panic msg)
         \<or> StartRun \<in> set (calls s') \<or> (\<exists>r. caller s' = StartRun_send r) \<or> caller s' = StartRun_wait"
proof (cases t)
  case Caller
  then have "caller_step ext s = Some (e, s')"
    using st by (simp add: step_def split: if_splits)
  then show ?thesis using p by (cases rule: caller_step_cases) auto
next
  case (Worker i)
  then have "worker_step i s = Some (e, s')"
    using st by (simp add: step_def split: if_splits)
  then show ?thesis using p by (cases rule: worker_step_cases) (auto simp: goto_def)
qed

lemma exec_startRun_returns:
  "exec ext sched s = Some (es, s') \<Longrightarrow>
   StartRun \<in> set (calls s) \<or> (\<exists>r. caller s = StartRun_send r) \<or> caller s = StartRun_wait \<Longrightarrow>
   finished s' \<Longrightarrow> StartRunReturns \<in> set es"
proof (induction sched arbitrary: s es)
  case Nil
  then show ?case by (auto simp: finished_def)
next
  case (Cons t ts)
  from Cons.prems obtain e s1 es1 where
    st: "step ext t s = Some (e, s1)" and ex: "exec ext ts s1 = Some (es1, s')"
    and es: "es = e # es1"
    by (auto split: option.splits prod.splits)
  from step_startRun_pending [OF st Cons.prems(2)]
  consider "e = StartRunReturns" | msg where "e = Panic msg"
    | "StartRun \<in> set (calls s1) \<or> (\<exists>r. caller s1 = StartRun_send r) \<or> caller s1 = StartRun_wait"
    by blast
  then show ?case
  proof cases
    case 1
    then show ?thesis using es by simp
  next
    case 2
    then have "panic s1 \<noteq> None" using st step_panics by blast
    then have "s' = s1" using ex exec_after_panic by blast
    then show ?thesis using \<open>panic s1 \<noteq> None\<close> Cons.prems(3) by (simp add: finished_def)
  next
    case 3
    then show ?thesis using Cons.IH [OF ex _ Cons.prems(3)] es by simp
  qed
qed

subsection \<open>Further facts about executions\<close>

lemma stuck_idle:
  assumes inv: "pool_inv s" and st: "stuck ext s" and p: "panic s = None"
  shows "how_many opens_gate (workers s) = 0"
proof -
  note b = worker_blocked [OF stuck_worker [OF st p]]
  have nomu: "\<not> mu s"
  proof
    assume m: "mu s"
    then have "0 < how_many holds_mu (workers s)" using inv by (simp add: pool_inv_def)
    then obtain j where j: "j < length (workers s)" "holds_mu (workers s ! j)"
      using how_many_witness by blast
    from b [OF j(1)] j(2) show False by auto
  qed
  show ?thesis
    by (rule how_many_none) (use b nomu in fastforce)
qed

lemma stuck_signalled:
  assumes "pool_inv s" "stuck ext s" "panic s = None" "firstReqDone s"
  shows "created (run (client s)) = Closed"
  using stuck_idle [OF assms(1-3)] assms(1,4)
  by (cases "created (run (client s))") (auto simp: pool_inv_def)

lemma gate_run_Signalled:
  "gate_run (Signalled i r) es = Some g \<Longrightarrow> g = Signalled i r"
proof (induction es)
  case Nil
  then show ?case by simp
next
  case (Cons e es)
  then show ?case by (cases e) (auto split: option.splits)
qed

lemma gate_run_signal:
  "gate_run g es = Some g' \<Longrightarrow> Signal j \<in> set es \<Longrightarrow> \<exists>i r. g' = Signalled i r"
proof (induction es arbitrary: g)
  case Nil
  then show ?case by simp
next
  case (Cons e es)
  then obtain g1 where g1: "gate_step g e = Some g1" "gate_run g1 es = Some g'"
    by (auto split: option.splits)
  show ?case
  proof (cases "e = Signal j")
    case True
    then obtain i r where "g1 = Signalled i r"
      using g1(1) by (cases g) (auto split: if_splits)
    then show ?thesis using g1(2) gate_run_Signalled by blast
  next
    case False
    then have "Signal j \<in> set es" using Cons.prems(2) by simp
    from Cons.IH [OF g1(2) this] show ?thesis .
  qed
qed

lemma gate_run_opener:
  "gate_run Shut es = Some g \<Longrightarrow> opener es \<noteq> None \<Longrightarrow> g \<noteq> Shut"
  using gate_run_Shut_opener [of Shut es g] by (cases g) auto

lemma gate_rel_flag:
  "pool_inv s \<Longrightarrow> gate_rel g s \<Longrightarrow> g \<noteq> Shut \<Longrightarrow> firstReqDone s"
  by (cases g) (auto simp: pool_inv_def)




lemma runs_exec:
  "runs ext sched s \<Longrightarrow> exec ext sched s = Some (events ext sched s, outcome ext sched s)"
  by (auto simp: runs_def events_def outcome_def split: option.splits)

subsection \<open>Requests that need the id of the run\<close>

lemma needs_run_missing:
  assumes "needs_run k" "enqueued ext c0 k = Some r" "spaceRun.ID (run c) = []"
  shows "makeRequest r c = record_error (missing_run_id k) c"
proof (cases k)
  case (PostTask task)
  then have "spec_resolve r (run c) = Inl (missing_run_id k)"
    using assms by (auto simp: postTask_request_def spec_resolve_def postTask_makeURL_def
        split: option.splits)
  then show ?thesis by (rule path_resolve)
next
  case FinishRun
  then have "spec_resolve r (run c) = Inl (missing_run_id k)"
    using assms by (auto simp: finishRun_request_def spec_resolve_def finishRun_makeURL_def)
  then show ?thesis by (rule path_resolve)
qed (use assms in simp_all)

lemma needs_run_all:
  "list_all needs_run ks \<Longrightarrow> those (map (enqueued ext c0) ks) = Some rs \<Longrightarrow>
   spaceRun.ID (run c) = [] \<Longrightarrow>
   errors (makeRequests rs c) = errors c @ map missing_run_id ks
   \<and> run (makeRequests rs c) = run c"
proof (induction ks arbitrary: rs c)
  case Nil
  then show ?case by simp
next
  case (Cons k ks)
  from Cons.prems(2) obtain r rs' where r: "enqueued ext c0 k = Some r"
    and rs': "those (map (enqueued ext c0) ks) = Some rs'" and rs: "rs = r # rs'"
    by (auto split: option.splits)
  have m: "makeRequest r c = record_error (missing_run_id k) c"
    using needs_run_missing [OF _ r Cons.prems(3)] Cons.prems(1) by simp
  have "spaceRun.ID (run (record_error (missing_run_id k) c)) = []"
    using Cons.prems(3) by (simp add: record_error_def)
  from Cons.IH [OF _ rs' this] Cons.prems(1)
  show ?case using rs m by (simp add: record_error_def)
qed



subsection \<open>A session, step by step\<close>

lemmas json_defs = json_spacesTask_def json_spacesRunPayload_def json_spacesCacheStatus_def
  json_spacesClientSummary_def omitempty_int_def omitempty_string_def omitempty_strings_def
  keys_def member_def

lemmas sample_defs = boot_def newSpacesClient_def processors_def sample_meta_def sample_ext_def
  sample_task_def answering_def failing_def silent_def

lemmas request_defs = startRun_request_def postTask_request_def finishRun_request_def
  postTask_makeURL_def finishRun_makeURL_def newSpacesTaskPayload_def

lemmas attempt_defs = spec_attempt_def spec_resolve_def spec_validate_def spec_serialize_def
  spec_dispatch_def error_def

lemmas step_defs = step_def caller_step_def worker_step_def start_call_def goto_def raise_def
  makeRequest_def record_error_def error_def startRun_onDone_def Let_def

lemma attempt_net:
  assumes "spec_attempt req c = Failure e c1 \<or> spec_attempt req c = Success resp c1"
  shows "c1 = c \<or> (\<exists>q payload. c1 = c\<lparr>net := snd (spec_dispatch q payload c)\<rparr>)"
proof (cases "spec_resolve req (run c)")
  case (Inl x)
  then show ?thesis using assms by (auto simp add: spec_attempt_def)
next
  case (Inr q)
  show ?thesis
  proof (cases "spec_validate q c")
    case (Some x)
    then show ?thesis using assms Inr by (auto simp add: spec_attempt_def)
  next
    case None
    show ?thesis
    proof (cases "spec_serialize q")
      case (Inl x)
      then show ?thesis using assms Inr None by (auto simp add: spec_attempt_def)
    next
      case p: (Inr payload)
      obtain r err w where d: "spec_dispatch q payload c = ((r, err), w)"
        by (metis surj_pair)
      then have "snd (spec_dispatch q payload c) = w" by simp
      then have "c\<lparr>net := w\<rparr> = c\<lparr>net := snd (spec_dispatch q payload c)\<rparr>" by simp
      moreover have "c1 = c\<lparr>net := w\<rparr>" using assms Inr None p d
        by (cases err) (auto simp add: spec_attempt_def)
      ultimately show ?thesis by blast
    qed
  qed
qed

lemma attempt_sent:
  assumes "spec_attempt req c = Success resp c1"
  shows "\<exists>q payload. c1 = c\<lparr>net := snd (spec_dispatch q payload c)\<rparr>"
proof (cases "spec_resolve req (run c)")
  case (Inl x)
  then show ?thesis using assms by (auto simp add: spec_attempt_def)
next
  case (Inr q)
  show ?thesis
  proof (cases "spec_validate q c")
    case (Some x)
    then show ?thesis using assms Inr by (auto simp add: spec_attempt_def)
  next
    case None
    show ?thesis
    proof (cases "spec_serialize q")
      case (Inl x)
      then show ?thesis using assms Inr None by (auto simp add: spec_attempt_def)
    next
      case p: (Inr payload)
      obtain r err w where d: "spec_dispatch q payload c = ((r, err), w)"
        by (metis surj_pair)
      then have "snd (spec_dispatch q payload c) = w" by simp
      then have "c\<lparr>net := w\<rparr> = c\<lparr>net := snd (spec_dispatch q payload c)\<rparr>" by simp
      moreover have "c1 = c\<lparr>net := w\<rparr>" using assms Inr None p d
        by (cases err) (auto simp add: spec_attempt_def)
      ultimately show ?thesis by blast
    qed
  qed
qed

lemma exec_facts:
  assumes "case exec ext sched s of None \<Rightarrow> False | Some (es, s1) \<Rightarrow> P es s1"
  shows "runs ext sched s \<and> P (events ext sched s) (outcome ext sched s)"
  using assms by (auto simp: runs_def events_def outcome_def split: option.splits)

lemma stuck_returned:
  assumes "workers s = replicate n Returned" and "caller s = Idle" and "calls s = []"
  shows "stuck ext s"
proof -
  have "blocked ext s Caller"
    using assms by (simp add: blocked_def step_def caller_step_def)
  moreover have "blocked ext s (Worker i)" for i
    using assms by (cases "i < n") (simp_all add: blocked_def step_def worker_step_def)
  ultimately show ?thesis by (auto simp: stuck_def threads_def list_all_iff)
qed

lemma session_exec:
  "case exec sample_ext session_schedule (boot failing session) of
     None \<Rightarrow> False
   | Some (es, s) \<Rightarrow>
       caller s = Idle \<and> calls s = [] \<and> panic s = None
       \<and> workers s = replicate 8 Returned
       \<and> CloseReturns \<in> set es \<and> StartRunReturns \<in> set es
       \<and> map_option fst (opener es) = Some 0
       \<and> errors (client s)
           = [''[POST] /v0/spaces/space_1/runs: connection refused'',
              ''No Run ID found to post task web#build'',
              ''No Run ID found to send PATCH request'']"
  by (simp add: session_schedule_def session_def sample_defs request_defs step_defs
      eval_nat_numeral)

lemmas session_facts = exec_facts [OF session_exec]

subsection \<open>The gate and the events\<close>

lemma gate_step_opener:
  assumes "gate_step g e = Some g1"
  shows "(case e of GateOpen i r \<Rightarrow> g = Shut \<and> g1 = Opened i r | _ \<Rightarrow> gate_opener g1 = gate_opener g)"
  using assms by (cases g; cases e) (auto split: if_splits)

lemma gate_run_kept:
  "gate_run g es = Some g1 \<Longrightarrow> g \<noteq> Shut \<Longrightarrow> gate_opener g1 = gate_opener g"
proof (induction es arbitrary: g)
  case Nil
  then show ?case by simp
next
  case (Cons e es)
  then obtain g2 where g2: "gate_step g e = Some g2" "gate_run g2 es = Some g1"
    by (auto split: option.splits)
  have k: "gate_opener g2 = gate_opener g"
    using gate_step_opener [OF g2(1)] Cons.prems(2) by (cases e) auto
  then have "g2 \<noteq> Shut" using Cons.prems(2) by (cases g; cases g2) auto
  from Cons.IH [OF g2(2) this] k show ?case by simp
qed

lemma gate_run_opener_eq:
  "gate_run Shut es = Some g \<Longrightarrow> gate_opener g = opener es"
proof (induction es)
  case Nil
  then show ?case by simp
next
  case (Cons e es)
  then obtain g2 where g2: "gate_step Shut e = Some g2" "gate_run g2 es = Some g"
    by (auto split: option.splits)
  show ?case
  proof (cases "opens e")
    case True
    then obtain i r where e: "e = GateOpen i r" by (cases e) auto
    then have "g2 = Opened i r" using g2(1) by simp
    then have "gate_opener g = Some (i, r)" using gate_run_kept [OF g2(2)] by simp
    then show ?thesis using e by simp
  next
    case False
    then have "g2 = Shut" using g2(1) by (cases e) auto
    then have "gate_opener g = opener es" using Cons.IH g2(2) by simp
    moreover have "opener (e # es) = opener es" using False by (cases e) auto
    ultimately show ?thesis by simp
  qed
qed

lemma gate_run_signalled_event:
  "gate_run g es = Some (Signalled i r) \<Longrightarrow> g = Signalled i r \<or> Signal i \<in> set es"
proof (induction es arbitrary: g)
  case Nil
  then show ?case by simp
next
  case (Cons e es)
  then obtain g2 where g2: "gate_step g e = Some g2" "gate_run g2 es = Some (Signalled i r)"
    by (auto split: option.splits)
  from Cons.IH [OF g2(2)] show ?case
  proof
    assume "g2 = Signalled i r"
    then show ?thesis using g2(1) by (cases g; cases e) (auto split: if_splits)
  next
    assume "Signal i \<in> set es"
    then show ?thesis by simp
  qed
qed

lemma returns_after_signal_event:
  "returns_after_signal False es \<Longrightarrow> StartRunReturns \<in> set es \<Longrightarrow> \<exists>i. Signal i \<in> set es"
proof (induction es)
  case Nil
  then show ?case by simp
next
  case (Cons e es)
  then show ?case by (cases e) auto
qed


subsection \<open>Further schedules, step by step\<close>

lemma race_exec:
  "case exec sample_ext race_schedule (boot answering race_calls) of
     None \<Rightarrow> False
   | Some (es, s) \<Rightarrow>
       map_option fst (first_dequeue es) = Some 0
       \<and> map_option (body \<circ> snd) (first_dequeue es)
           = map_option TaskPayload (newSpacesTaskPayload (sample_task ''build''))
       \<and> map_option fst (opener es) = Some 1
       \<and> map_option (body \<circ> snd) (opener es)
           = map_option TaskPayload (newSpacesTaskPayload (sample_task ''test''))"
  by (simp add: race_schedule_def race_calls_def sample_defs request_defs step_defs)





section \<open>The properties of the specification\<close>

text \<open>
  C8. For a task summary with hash abc123, package web, task build, task id web#build,
  exit code 0 and the cache summary local, HIT, 42: the task payload has the key
  web#build, the name build, the workspace web, the hash abc123 and the cache summary
  with its 42 saved; the object that is emitted for it has these members, and neither
  the object nor its cache member has a member for the booleans \<open>Local\<close> and \<open>Remote\<close>.
\<close>

theorem task_payload_fields:
  assumes "TaskSummary.Hash ts = ''abc123''" and "Package ts = ''web''" and "Task ts = ''build''"
    and "TaskID ts = ''web#build''"
    and "TaskExecutionSummary.exitCode (Execution ts) = Some 0"
    and "Local (CacheSummary ts)" and "TaskCacheSummary.Status (CacheSummary ts) = ''HIT''"
    and "TimeSaved (CacheSummary ts) = 42"
  shows "\<exists>p cache.
           newSpacesTaskPayload ts = Some p
           \<and> Key p = ''web#build'' \<and> Key p = TaskID ts
           \<and> spacesTask.Name p = ''build'' \<and> Workspace p = ''web''
           \<and> spacesTask.Hash p = ''abc123'' \<and> spacesTask.ExitCode p = 0
           \<and> TimeSaved (Cache p) = 42 \<and> Cache p = CacheSummary ts
           \<and> json_Marshal (TaskPayload p) = Inr (json_spacesTask p)
           \<and> member (json_spacesTask p) ''key'' = Some (JString ''web#build'')
           \<and> member (json_spacesTask p) ''name'' = Some (JString ''build'')
           \<and> member (json_spacesTask p) ''workspace'' = Some (JString ''web'')
           \<and> member (json_spacesTask p) ''hash'' = Some (JString ''abc123'')
           \<and> member (json_spacesTask p) ''cache'' = Some cache
           \<and> member cache ''timeSaved'' = Some (JNumber 42)
           \<and> member cache ''status'' = Some (JString ''HIT'')
           \<and> set (keys cache) \<subseteq> {''status'', ''source'', ''timeSaved''}
           \<and> ''local'' \<notin> set (keys cache) \<and> ''remote'' \<notin> set (keys cache)
           \<and> ''Local'' \<notin> set (keys cache) \<and> ''Remote'' \<notin> set (keys cache)
           \<and> ''local'' \<notin> set (keys (json_spacesTask p))
           \<and> ''remote'' \<notin> set (keys (json_spacesTask p))"
  using assms by (simp add: newSpacesTaskPayload_def json_defs)

theorem task_payload_fields_witness:
  "\<exists>p cache.
     newSpacesTaskPayload (sample_task ''build'') = Some p
     \<and> Key p = ''web#build'' \<and> Key p = TaskID (sample_task ''build'')
     \<and> spacesTask.Name p = ''build'' \<and> Workspace p = ''web''
     \<and> spacesTask.Hash p = ''abc123'' \<and> spacesTask.ExitCode p = 0
     \<and> TimeSaved (Cache p) = 42 \<and> Cache p = CacheSummary (sample_task ''build'')
     \<and> json_Marshal (TaskPayload p) = Inr (json_spacesTask p)
     \<and> member (json_spacesTask p) ''key'' = Some (JString ''web#build'')
     \<and> member (json_spacesTask p) ''name'' = Some (JString ''build'')
     \<and> member (json_spacesTask p) ''workspace'' = Some (JString ''web'')
     \<and> member (json_spacesTask p) ''hash'' = Some (JString ''abc123'')
     \<and> member (json_spacesTask p) ''cache'' = Some cache
     \<and> member cache ''timeSaved'' = Some (JNumber 42)
     \<and> member cache ''status'' = Some (JString ''HIT'')
     \<and> set (keys cache) \<subseteq> {''status'', ''source'', ''timeSaved''}
     \<and> ''local'' \<notin> set (keys cache) \<and> ''remote'' \<notin> set (keys cache)
     \<and> ''Local'' \<notin> set (keys cache) \<and> ''Remote'' \<notin> set (keys cache)
     \<and> ''local'' \<notin> set (keys (json_spacesTask p))
     \<and> ''remote'' \<notin> set (keys (json_spacesTask p))"
  by (rule task_payload_fields) (simp_all add: sample_task_def)

text \<open>
  C9. For a run summary that ends with exit code 1: the payload of the final PATCH has
  the status completed, the exit code 1 and the end time of the summary, and the object
  emitted for it has no member startTime. (Its member endTime is there unless the end
  time is the zero of the clock.)
\<close>

theorem done_payload_fields:
  assumes "executionSummary.exitCode (ExecutionSummary rs) = 1"
  shows "spacesRunPayload.Status (newSpacesDonePayload rs) = ''completed''
         \<and> spacesRunPayload.ExitCode (newSpacesDonePayload rs) = 1
         \<and> spacesRunPayload.EndTime (newSpacesDonePayload rs) = endedAt (ExecutionSummary rs)
         \<and> spacesRunPayload.StartTime (newSpacesDonePayload rs) = 0
         \<and> json_Marshal (RunPayload (newSpacesDonePayload rs))
             = Inr (json_spacesRunPayload (newSpacesDonePayload rs))
         \<and> ''startTime'' \<notin> set (keys (json_spacesRunPayload (newSpacesDonePayload rs)))
         \<and> member (json_spacesRunPayload (newSpacesDonePayload rs)) ''status''
             = Some (JString ''completed'')
         \<and> member (json_spacesRunPayload (newSpacesDonePayload rs)) ''exitCode''
             = Some (JNumber 1)
         \<and> member (json_spacesRunPayload (newSpacesDonePayload rs)) ''endTime''
             = (if endedAt (ExecutionSummary rs) = 0 then None
                else Some (JNumber (endedAt (ExecutionSummary rs))))"
  using assms by (simp add: newSpacesDonePayload_def json_defs)

theorem done_payload_fields_witness:
  "executionSummary.exitCode (ExecutionSummary (RunSummary sample_meta)) = 1
   \<and> body (finishRun_request (client (boot answering []))) 
       = RunPayload (newSpacesDonePayload (RunSummary sample_meta))
   \<and> spacesRunPayload.Status (newSpacesDonePayload (RunSummary sample_meta)) = ''completed''
   \<and> spacesRunPayload.ExitCode (newSpacesDonePayload (RunSummary sample_meta)) = 1
   \<and> ''startTime'' \<notin> set (keys (json_spacesRunPayload (newSpacesDonePayload (RunSummary sample_meta))))
   \<and> member (json_spacesRunPayload (newSpacesDonePayload (RunSummary sample_meta))) ''endTime''
       = Some (JNumber 1700000005000)"
proof -
  have h: "executionSummary.exitCode (ExecutionSummary (RunSummary sample_meta)) = 1"
    by (simp add: sample_meta_def)
  have e: "endedAt (ExecutionSummary (RunSummary sample_meta)) = 1700000005000"
    by (simp add: sample_meta_def)
  have b: "body (finishRun_request (client (boot answering [])))
       = RunPayload (newSpacesDonePayload (RunSummary sample_meta))"
    by (simp add: finishRun_request_def boot_def newSpacesClient_def)
  show ?thesis using h b done_payload_fields [OF h] by (simp add: e)
qed


text \<open>
  C6. For a request with the method POST or PATCH, \<open>makeRequest\<close> is the sequence of
  steps of the specification: resolve the URL if there is a resolver, check the space id
  and the link, serialise the body, call the transport for the verb. The first step that
  fails appends its one error, leaves the run as it was and ends the work on this
  request; the transport has been called at most once. Whatever was recorded, the worker
  goes back to the head of its loop for the next request.
\<close>

theorem makeRequest_steps:
  assumes "method req = ''POST'' \<or> method req = ''PATCH''"
  shows "makeRequest req c = spec_process req c
    \<and> (\<forall>e c1. spec_attempt req c = Failure e c1 \<longrightarrow>
          makeRequest req c = record_error e c1
          \<and> errors (makeRequest req c) = errors c @ [e]
          \<and> run (makeRequest req c) = run c
          \<and> (c1 = c \<or> (\<exists>q payload. c1 = c\<lparr>net := snd (spec_dispatch q payload c)\<rparr>)))
    \<and> (\<forall>resp c1. spec_attempt req c = Success resp c1 \<longrightarrow>
          makeRequest req c = (case onDone req of None \<Rightarrow> c1 | Some f \<Rightarrow> f resp c1)
          \<and> errors c1 = errors c
          \<and> (\<exists>q payload. c1 = c\<lparr>net := snd (spec_dispatch q payload c)\<rparr>))
    \<and> (\<forall>s i. i < length (workers s) \<and> panic s = None \<and> workers s ! i = AtMakeElse req \<longrightarrow>
          step ext (Worker i) s
            = Some (Processed i req,
                    s\<lparr>workers := (workers s)[i := AtRange],
                      client := makeRequest req (client s)\<rparr>))"
proof (intro conjI allI impI)
  show r: "makeRequest req c = spec_process req c" by (rule makeRequest_refines [OF assms])
  {
    fix e c1 assume f: "spec_attempt req c = Failure e c1"
    show m: "makeRequest req c = record_error e c1" by (simp add: r spec_process_def f)
    have "same_but_net c c1" using attempt_frame f by blast
    then show "errors (makeRequest req c) = errors c @ [e]" "run (makeRequest req c) = run c"
      by (simp_all add: m record_error_def same_but_net_def)
    show "c1 = c \<or> (\<exists>q payload. c1 = c\<lparr>net := snd (spec_dispatch q payload c)\<rparr>)"
      using attempt_net f by blast
  }
  {
    fix resp c1 assume f: "spec_attempt req c = Success resp c1"
    show "makeRequest req c = (case onDone req of None \<Rightarrow> c1 | Some f \<Rightarrow> f resp c1)"
      by (simp add: r spec_process_def f)
    have "same_but_net c c1" using attempt_frame f by blast
    then show "errors c1 = errors c" by (simp add: same_but_net_def)
    show "\<exists>q payload. c1 = c\<lparr>net := snd (spec_dispatch q payload c)\<rparr>"
      using f attempt_sent by blast
  }
  {
    fix s :: "'a system" and i
    assume "i < length (workers s) \<and> panic s = None \<and> workers s ! i = AtMakeElse req"
    then show "step ext (Worker i) s
            = Some (Processed i req,
                    s\<lparr>workers := (workers s)[i := AtRange],
                      client := makeRequest req (client s)\<rparr>)"
      by (simp add: step_def worker_step_def goto_def)
  }
qed


theorem makeRequest_steps_witness:
  "method (finishRun_request (client (boot failing []))) = ''PATCH''
   \<and> makeRequest (finishRun_request (client (boot failing [])))
         ((client (boot failing []))\<lparr>run := \<lparr>spaceRun.ID = ''run_1'', URL = [], created = Closed\<rparr>\<rparr>)
       = spec_process (finishRun_request (client (boot failing [])))
         ((client (boot failing []))\<lparr>run := \<lparr>spaceRun.ID = ''run_1'', URL = [], created = Closed\<rparr>\<rparr>)
   \<and> errors (makeRequest (finishRun_request (client (boot failing [])))
         ((client (boot failing []))\<lparr>run := \<lparr>spaceRun.ID = ''run_1'', URL = [], created = Closed\<rparr>\<rparr>))
       = [''[PATCH] /v0/spaces/space_1/runs/run_1: connection refused'']"
proof -
  let ?r = "finishRun_request (client (boot failing []))"
  let ?c = "(client (boot failing []))\<lparr>run := \<lparr>spaceRun.ID = ''run_1'', URL = [], created = Closed\<rparr>\<rparr>"
  have h: "method ?r = ''PATCH''" by (simp add: finishRun_request_def)
  have a: "spec_attempt ?r ?c
             = Failure ''[PATCH] /v0/spaces/space_1/runs/run_1: connection refused'' (?c\<lparr>net := 1\<rparr>)"
    by (simp add: attempt_defs request_defs sample_defs)
  have e: "errors ?c = []" by (simp add: sample_defs)
  note T = makeRequest_steps [where req = ?r and c = ?c and ext = sample_ext, OF disjI2 [OF h]]
  from T have 1: "makeRequest ?r ?c = spec_process ?r ?c" by (rule conjunct1)
  from T a have "errors (makeRequest ?r ?c)
      = errors ?c @ [''[PATCH] /v0/spaces/space_1/runs/run_1: connection refused'']"
    by blast
  then have 2: "errors (makeRequest ?r ?c)
      = [''[PATCH] /v0/spaces/space_1/runs/run_1: connection refused'']"
    unfolding e by simp
  from h 1 2 show ?thesis by (intro conjI)
qed

text \<open>
  C7. A request with a handler \<open>f\<close>: when the call of the transport has succeeded with
  the response \<open>resp\<close>, the result is \<open>f resp\<close> on the client after the call; in every
  other case the result is the one of the same request without a handler, which has
  recorded an error: \<open>f\<close> is not run. The handler of the request of \<open>startRun\<close> leaves
  the client alone on a nil response, stores the decoded id and URL in the run, and
  appends an error when the decoder returns one.
\<close>

theorem onDone_iff_transport:
  "makeRequest (req\<lparr>onDone := Some f\<rparr>) c =
     (case transport_outcome req c of
        None \<Rightarrow> makeRequest (req\<lparr>onDone := None\<rparr>) c
      | Some (resp, c1) \<Rightarrow> f resp c1)
   \<and> (case transport_outcome req c of
        None \<Rightarrow> \<exists>e c1. makeRequest (req\<lparr>onDone := None\<rparr>) c = record_error e c1
      | Some (resp, c1) \<Rightarrow> makeRequest (req\<lparr>onDone := None\<rparr>) c = c1)
   \<and> onDone (startRun_request ext c0) = Some (startRun_onDone ext)
   \<and> startRun_onDone ext None c = c
   \<and> (\<forall>d. json_Unmarshal ext r (run c) = (d, None) \<longrightarrow>
         startRun_onDone ext (Some r) c
           = c\<lparr>run := (run c)\<lparr>spaceRun.ID := spaceRun.ID d, URL := URL d\<rparr>\<rparr>)
   \<and> (\<forall>d e. json_Unmarshal ext r (run c) = (d, Some e) \<longrightarrow>
         startRun_onDone ext (Some r) c
           = record_error (''Error unmarshaling response: '' @ e)
               (c\<lparr>run := (run c)\<lparr>spaceRun.ID := spaceRun.ID d, URL := URL d\<rparr>\<rparr>))"
proof (intro conjI allI impI)
  show "makeRequest (req\<lparr>onDone := Some f\<rparr>) c =
     (case transport_outcome req c of
        None \<Rightarrow> makeRequest (req\<lparr>onDone := None\<rparr>) c
      | Some (resp, c1) \<Rightarrow> f resp c1)"
  proof (cases "transport_outcome req c")
    case None
    from makeRequest_failed [OF None, of "Some f"] show ?thesis unfolding None by simp
  next
    case (Some x)
    then obtain resp c1 where x: "transport_outcome (req\<lparr>onDone := Some f\<rparr>) c = Some (resp, c1)"
      and y: "transport_outcome req c = Some (resp, c1)"
      by (cases x) simp
    from makeRequest_succeeded [OF x] show ?thesis unfolding y by simp
  qed
  show "case transport_outcome req c of
        None \<Rightarrow> \<exists>e c1. makeRequest (req\<lparr>onDone := None\<rparr>) c = record_error e c1
      | Some (resp, c1) \<Rightarrow> makeRequest (req\<lparr>onDone := None\<rparr>) c = c1"
  proof (cases "transport_outcome req c")
    case None
    then have "transport_outcome (req\<lparr>onDone := None\<rparr>) c = None" by simp
    then show ?thesis using makeRequest_result [of c "req\<lparr>onDone := None\<rparr>"]
      unfolding None by auto
  next
    case (Some x)
    then obtain resp c1 where x: "transport_outcome (req\<lparr>onDone := None\<rparr>) c = Some (resp, c1)"
      and y: "transport_outcome req c = Some (resp, c1)"
      by (cases x) simp
    from makeRequest_succeeded [OF x] show ?thesis unfolding y by simp
  qed
  show "onDone (startRun_request ext c0) = Some (startRun_onDone ext)"
    by (simp add: startRun_request_def)
  show "startRun_onDone ext None c = c" by (simp add: startRun_onDone_def)
  show "startRun_onDone ext (Some r) c
           = c\<lparr>run := (run c)\<lparr>spaceRun.ID := spaceRun.ID d, URL := URL d\<rparr>\<rparr>"
    if "json_Unmarshal ext r (run c) = (d, None)" for d
    using that by (simp add: startRun_onDone_def)
  show "startRun_onDone ext (Some r) c
           = record_error (''Error unmarshaling response: '' @ e)
               (c\<lparr>run := (run c)\<lparr>spaceRun.ID := spaceRun.ID d, URL := URL d\<rparr>\<rparr>)"
    if "json_Unmarshal ext r (run c) = (d, Some e)" for d e
    using that by (simp add: startRun_onDone_def)
qed

theorem onDone_iff_transport_witness:
  "transport_outcome (startRun_request sample_ext (client (boot answering []))) (client (boot answering []))
     = Some (Some ''run_1'', (client (boot answering []))\<lparr>net := 1\<rparr>)
   \<and> makeRequest (startRun_request sample_ext (client (boot answering []))) (client (boot answering []))
     = startRun_onDone sample_ext (Some ''run_1'') ((client (boot answering []))\<lparr>net := 1\<rparr>)
   \<and> json_Unmarshal sample_ext ''<html>'' (run (client (boot answering [])))
     = (run (client (boot answering [])), Some ''unexpected end of JSON input'')
   \<and> errors (startRun_onDone sample_ext (Some ''<html>'') (client (boot answering [])))
     = [''Error unmarshaling response: unexpected end of JSON input'']"
proof -
  let ?c = "client (boot answering [])"
  let ?r = "startRun_request sample_ext ?c"
  have r: "(?r\<lparr>onDone := None\<rparr>)\<lparr>onDone := Some (startRun_onDone sample_ext)\<rparr> = ?r"
    by (simp add: startRun_request_def)
  have a: "spec_attempt ?r ?c = Success (Some ''run_1'') (?c\<lparr>net := 1\<rparr>)"
    by (simp add: attempt_defs request_defs sample_defs)
  have m: "method ?r = ''POST''" by (simp add: startRun_request_def)
  have t: "transport_outcome ?r ?c = Some (Some ''run_1'', ?c\<lparr>net := 1\<rparr>)"
    by (simp add: outcome_valid m a)
  then have t': "transport_outcome (?r\<lparr>onDone := None\<rparr>) ?c = Some (Some ''run_1'', ?c\<lparr>net := 1\<rparr>)"
    by simp
  have u: "json_Unmarshal sample_ext ''<html>'' (run ?c)
      = (run ?c, Some ''unexpected end of JSON input'')"
    by (simp add: sample_defs)
  have e: "errors ?c = []" by (simp add: sample_defs)
  note T = onDone_iff_transport [where req = "?r\<lparr>onDone := None\<rparr>"
      and f = "startRun_onDone sample_ext" and c = ?c and ext = sample_ext and r = "''<html>''"
      and ?c0.0 = ?c]
  from T have "makeRequest ((?r\<lparr>onDone := None\<rparr>)\<lparr>onDone := Some (startRun_onDone sample_ext)\<rparr>) ?c
      = (case transport_outcome (?r\<lparr>onDone := None\<rparr>) ?c of
          None \<Rightarrow> makeRequest ((?r\<lparr>onDone := None\<rparr>)\<lparr>onDone := None\<rparr>) ?c
        | Some (resp, c1) \<Rightarrow> startRun_onDone sample_ext resp c1)"
    by (rule conjunct1)
  then have 1: "makeRequest ?r ?c = startRun_onDone sample_ext (Some ''run_1'') (?c\<lparr>net := 1\<rparr>)"
    unfolding t' r by simp
  note T [THEN conjunct2, THEN conjunct2, THEN conjunct2, THEN conjunct2, THEN conjunct2]
  with u have "startRun_onDone sample_ext (Some ''<html>'') ?c
           = record_error (''Error unmarshaling response: '' @ ''unexpected end of JSON input'')
               (?c\<lparr>run := (run ?c)\<lparr>spaceRun.ID := spaceRun.ID (run ?c), URL := URL (run ?c)\<rparr>\<rparr>)"
    by blast
  then have 2: "errors (startRun_onDone sample_ext (Some ''<html>'') ?c)
     = [''Error unmarshaling response: unexpected end of JSON input'']"
    by (simp add: record_error_def e)
  from t 1 u 2 show ?thesis by (intro conjI)
qed


text \<open>
  C10. If the transport returns a nil response and no error for the request of
  \<open>startRun\<close>, then \<open>makeRequest\<close> returns the client after the call: no error is
  recorded and the id and the URL of the run are what they were. With the id empty, every
  request of \<open>postTask\<close> or \<open>finishRun\<close> served afterwards appends its error
  "No Run ID found ...", one for each.
\<close>

theorem nil_response_leaves_run_empty:
  assumes "transport_outcome (startRun_request ext c0) c = Some (None, c1)"
    and "spaceRun.ID (run c) = []"
    and "list_all needs_run ks" and "those (map (enqueued ext c0) ks) = Some rs"
  shows "makeRequest (startRun_request ext c0) c = c1
    \<and> errors c1 = errors c \<and> run c1 = run c
    \<and> spaceRun.ID (run c1) = [] \<and> URL (run c1) = URL (run c)
    \<and> errors (makeRequests rs c1) = errors c1 @ map missing_run_id ks
    \<and> length (errors (makeRequests rs c1)) = length (errors c) + length ks"
proof -
  have od: "onDone (startRun_request ext c0) = Some (startRun_onDone ext)"
    by (simp add: startRun_request_def)
  have 1: "makeRequest (startRun_request ext c0) c = c1"
    using makeRequest_succeeded [OF assms(1)] by (simp add: od startRun_onDone_def)
  have "same_but_net c c1"
    using makeRequest_result [of c "startRun_request ext c0"] assms(1) by auto
  then have 2: "errors c1 = errors c" "run c1 = run c" by (simp_all add: same_but_net_def)
  then have 3: "spaceRun.ID (run c1) = []" using assms(2) by simp
  from needs_run_all [OF assms(3,4) 3]
  have 4: "errors (makeRequests rs c1) = errors c1 @ map missing_run_id ks" by simp
  show ?thesis using 1 2 3 4 by simp
qed

theorem nil_response_leaves_run_empty_witness:
  "transport_outcome (startRun_request sample_ext (client (boot silent []))) (client (boot silent []))
     = Some (None, (client (boot silent []))\<lparr>net := 1\<rparr>)
   \<and> makeRequest (startRun_request sample_ext (client (boot silent []))) (client (boot silent []))
     = (client (boot silent []))\<lparr>net := 1\<rparr>
   \<and> errors (makeRequests
         [the (postTask_request (client (boot silent [])) (sample_task ''build'')),
          finishRun_request (client (boot silent []))]
         ((client (boot silent []))\<lparr>net := 1\<rparr>))
     = [''No Run ID found to post task web#build'', ''No Run ID found to send PATCH request'']"
proof -
  let ?c = "client (boot silent [])"
  let ?r = "startRun_request sample_ext ?c"
  let ?ks = "[PostTask (sample_task ''build''), FinishRun]"
  let ?rs = "[the (postTask_request ?c (sample_task ''build'')), finishRun_request ?c]"
  have a: "spec_attempt ?r ?c = Success None (?c\<lparr>net := 1\<rparr>)"
    by (simp add: attempt_defs request_defs sample_defs)
  have m: "method ?r = ''POST''" by (simp add: startRun_request_def)
  have t: "transport_outcome ?r ?c = Some (None, ?c\<lparr>net := 1\<rparr>)"
    by (simp add: outcome_valid m a)
  have i: "spaceRun.ID (run ?c) = []" by (simp add: sample_defs)
  have n: "list_all needs_run ?ks" by simp
  have th: "those (map (enqueued sample_ext ?c) ?ks) = Some ?rs"
    by (simp add: request_defs sample_defs)
  have e: "errors ?c = []" by (simp add: sample_defs)
  have id: "TaskID (sample_task ''build'') = ''web#build''" by (simp add: sample_task_def)
  note T = nil_response_leaves_run_empty [OF t i n th]
  from T have 1: "makeRequest ?r ?c = ?c\<lparr>net := 1\<rparr>" by (rule conjunct1)
  from T have "errors (makeRequests ?rs (?c\<lparr>net := 1\<rparr>))
      = errors (?c\<lparr>net := 1\<rparr>) @ map missing_run_id ?ks"
    by (elim conjE)
  then have 2: "errors (makeRequests ?rs (?c\<lparr>net := 1\<rparr>))
     = [''No Run ID found to post task web#build'', ''No Run ID found to send PATCH request'']"
    by (simp add: e id)
  from t 1 2 show ?thesis by (intro conjI)
qed



text \<open>
  C1, as the code has it. In every execution of every list of calls: at most one worker
  opens the gate, the first to come to the test with the mutex; the events keep the
  order of the gate, so \<open>created\<close> is closed at most once, by the worker that opened the
  gate and after its \<open>makeRequest\<close> has returned, whatever that recorded; once closed,
  \<open>created\<close> stays closed; and when no thread can step any more and the gate was opened,
  \<open>created\<close> is closed. When the first call is \<open>startRun\<close>, the worker that opens the gate
  is the one that received the first request, and that request is the one of \<open>startRun\<close>.
\<close>

theorem gate_opens_once:
  assumes "runs ext sched ((newSpacesClient a m w)\<lparr>calls := cs\<rparr>)"
  shows "how_many opens (events ext sched ((newSpacesClient a m w)\<lparr>calls := cs\<rparr>)) \<le> 1
    \<and> how_many signals (events ext sched ((newSpacesClient a m w)\<lparr>calls := cs\<rparr>)) \<le> 1
    \<and> (\<exists>g. gate_run Shut (events ext sched ((newSpacesClient a m w)\<lparr>calls := cs\<rparr>)) = Some g
           \<and> gate_rel g (outcome ext sched ((newSpacesClient a m w)\<lparr>calls := cs\<rparr>))
           \<and> gate_opener g = opener (events ext sched ((newSpacesClient a m w)\<lparr>calls := cs\<rparr>)))
    \<and> ((\<exists>i. Signal i \<in> set (events ext sched ((newSpacesClient a m w)\<lparr>calls := cs\<rparr>))) \<longrightarrow>
          created (run (client (outcome ext sched ((newSpacesClient a m w)\<lparr>calls := cs\<rparr>)))) = Closed)
    \<and> (opener (events ext sched ((newSpacesClient a m w)\<lparr>calls := cs\<rparr>)) \<noteq> None
         \<and> stuck ext (outcome ext sched ((newSpacesClient a m w)\<lparr>calls := cs\<rparr>))
         \<and> panic (outcome ext sched ((newSpacesClient a m w)\<lparr>calls := cs\<rparr>)) = None \<longrightarrow>
          created (run (client (outcome ext sched ((newSpacesClient a m w)\<lparr>calls := cs\<rparr>)))) = Closed
          \<and> (\<exists>i. Signal i \<in> set (events ext sched ((newSpacesClient a m w)\<lparr>calls := cs\<rparr>))))
    \<and> (\<forall>ks. cs = StartRun # ks \<longrightarrow>
          opener (events ext sched ((newSpacesClient a m w)\<lparr>calls := cs\<rparr>)) = None
          \<or> (\<exists>i. opener (events ext sched ((newSpacesClient a m w)\<lparr>calls := cs\<rparr>))
                    = Some (i, startRun_request ext (client (newSpacesClient a m w)))
                 \<and> first_dequeue (events ext sched ((newSpacesClient a m w)\<lparr>calls := cs\<rparr>))
                    = opener (events ext sched ((newSpacesClient a m w)\<lparr>calls := cs\<rparr>))))"
proof -
  let ?init = "(newSpacesClient a m w)\<lparr>calls := cs\<rparr>"
  let ?es = "events ext sched ?init"
  let ?s = "outcome ext sched ?init"
  have ex: "exec ext sched ?init = Some (?es, ?s)" using assms by (rule runs_exec)
  have inv0: "pool_inv ?init" by (rule newSpacesClient_inv)
  have inv: "pool_inv ?s" using exec_inv [OF ex inv0] .
  have "gate_rel Shut ?init" by (simp add: newSpacesClient_def)
  from exec_gate [OF ex inv0 this] obtain g where
    g: "gate_run Shut ?es = Some g" "gate_rel g ?s" by blast
  have go: "gate_opener g = opener ?es" using gate_run_opener_eq [OF g(1)] .
  have 1: "how_many opens ?es \<le> 1" "how_many signals ?es \<le> 1"
    using gate_run_counts [OF g(1)] by simp_all
  have 3: "\<exists>g. gate_run Shut ?es = Some g \<and> gate_rel g ?s \<and> gate_opener g = opener ?es"
    using g go by blast
  have 4: "created (run (client ?s)) = Closed" if "\<exists>i. Signal i \<in> set ?es"
  proof -
    from that obtain j where "Signal j \<in> set ?es" by blast
    from gate_run_signal [OF g(1) this] obtain i r where "g = Signalled i r" by blast
    then show ?thesis using g(2) by simp
  qed
  have 5: "created (run (client ?s)) = Closed \<and> (\<exists>i. Signal i \<in> set ?es)"
    if h: "opener ?es \<noteq> None \<and> stuck ext ?s \<and> panic ?s = None"
  proof -
    have ns: "g \<noteq> Shut" using go h by (cases g) auto
    then have fl: "firstReqDone ?s" using gate_rel_flag [OF inv g(2)] by simp
    from h have st: "stuck ext ?s" and p: "panic ?s = None" by simp_all
    have c: "created (run (client ?s)) = Closed"
      using stuck_signalled [OF inv st p fl] .
    then obtain i r where gs: "g = Signalled i r" using g(2) ns by (cases g) auto
    from gate_run_signalled_event [OF g(1) [unfolded gs]] have "Signal i \<in> set ?es" by simp
    then show ?thesis using c by blast
  qed
  have 6: "opener ?es = None
      \<or> (\<exists>i. opener ?es = Some (i, startRun_request ext (client (newSpacesClient a m w)))
             \<and> first_dequeue ?es = opener ?es)"
    if "cs = StartRun # ks" for ks
    using exec_startRun_first [OF ex [unfolded that]] that by simp
  show ?thesis using 1 3 4 5 6 by blast
qed

theorem gate_opens_once_witness:
  "runs sample_ext session_schedule (boot failing session)
   \<and> how_many opens (events sample_ext session_schedule (boot failing session)) \<le> 1
   \<and> how_many signals (events sample_ext session_schedule (boot failing session)) \<le> 1
   \<and> map_option fst (opener (events sample_ext session_schedule (boot failing session))) = Some 0
   \<and> first_dequeue (events sample_ext session_schedule (boot failing session))
       = opener (events sample_ext session_schedule (boot failing session))
   \<and> created (run (client (outcome sample_ext session_schedule (boot failing session)))) = Closed"
proof -
  let ?es = "events sample_ext session_schedule (boot failing session)"
  let ?s = "outcome sample_ext session_schedule (boot failing session)"
  have eq: "(newSpacesClient failing sample_meta 0)\<lparr>calls := session\<rparr> = boot failing session"
    by (simp add: boot_def)
  have r: "runs sample_ext session_schedule (boot failing session)"
    using session_facts by simp
  have o: "map_option fst (opener ?es) = Some 0" using session_facts by simp
  then have on: "opener ?es \<noteq> None" by auto
  have st: "stuck sample_ext ?s"
    using session_facts by (intro stuck_returned [of _ 8]) simp_all
  have p: "panic ?s = None" using session_facts by simp
  have c: "session = StartRun # tl session" by (simp add: session_def)
  note T = gate_opens_once [where a = failing and m = sample_meta and w = 0 and cs = session
      and sched = session_schedule and ext = sample_ext, unfolded eq, OF r]
  from T have 1: "how_many opens ?es \<le> 1" "how_many signals ?es \<le> 1" by blast+
  from T on st p have 2: "created (run (client ?s)) = Closed" by blast
  note T [THEN conjunct2, THEN conjunct2, THEN conjunct2, THEN conjunct2, THEN conjunct2,
      rule_format, OF c]
  with on have 3: "first_dequeue ?es = opener ?es" by auto
  from r 1 o 3 2 show ?thesis by (intro conjI)
qed

text \<open>
  C1, as it is stated, fails: two tasks posted without \<open>startRun\<close>. Worker 0 receives the
  first request, the one for the task build; worker 1 receives the second and opens the
  gate with it.
\<close>

theorem gate_opener_counterexample:
  "runs sample_ext race_schedule (boot answering race_calls)
   \<and> map_option fst (first_dequeue (events sample_ext race_schedule (boot answering race_calls)))
       = Some 0
   \<and> map_option fst (opener (events sample_ext race_schedule (boot answering race_calls)))
       = Some 1
   \<and> first_dequeue (events sample_ext race_schedule (boot answering race_calls))
       \<noteq> opener (events sample_ext race_schedule (boot answering race_calls))"
  using exec_facts [OF race_exec] by auto

text \<open>
  C3. The request that \<open>startRun\<close> puts on the channel is a POST to
  \<open>/v0/spaces/{space}/runs\<close>, with no resolver. In every execution, whatever the transport
  does: the caller at its receive from \<open>created\<close> is blocked while \<open>created\<close> is open;
  every return of \<open>startRun\<close> comes after the signal, and \<open>created\<close> is closed then;
  the execution has at most \<open>cost\<close> steps and, unless a goroutine has panicked, stops
  only when the caller has returned from all its calls, \<open>startRun\<close> among them.
\<close>

theorem startRun_returns_after_signal:
  assumes "runs ext sched ((newSpacesClient a m w)\<lparr>calls := cs\<rparr>)"
  shows "method (startRun_request ext c) = ''POST''
    \<and> url (startRun_request ext c) = ''/v0/spaces/'' @ spaceID (rsm c) @ ''/runs''
    \<and> makeURL (startRun_request ext c) = None
    \<and> start_call ext StartRun s1
        = Some (Enqueue (startRun_request ext (client s1)),
                s1\<lparr>caller := StartRun_send (startRun_request ext (client s1))\<rparr>)
    \<and> returns_after_signal False (events ext sched ((newSpacesClient a m w)\<lparr>calls := cs\<rparr>))
    \<and> (StartRunReturns \<in> set (events ext sched ((newSpacesClient a m w)\<lparr>calls := cs\<rparr>)) \<longrightarrow>
          created (run (client (outcome ext sched ((newSpacesClient a m w)\<lparr>calls := cs\<rparr>)))) = Closed)
    \<and> (caller (outcome ext sched ((newSpacesClient a m w)\<lparr>calls := cs\<rparr>)) = StartRun_wait
         \<and> created (run (client (outcome ext sched ((newSpacesClient a m w)\<lparr>calls := cs\<rparr>)))) = Open \<longrightarrow>
          blocked ext (outcome ext sched ((newSpacesClient a m w)\<lparr>calls := cs\<rparr>)) Caller)
    \<and> length sched \<le> cost ((newSpacesClient a m w)\<lparr>calls := cs\<rparr>)
    \<and> (stuck ext (outcome ext sched ((newSpacesClient a m w)\<lparr>calls := cs\<rparr>))
         \<and> panic (outcome ext sched ((newSpacesClient a m w)\<lparr>calls := cs\<rparr>)) = None \<longrightarrow>
          finished (outcome ext sched ((newSpacesClient a m w)\<lparr>calls := cs\<rparr>)))
    \<and> (finished (outcome ext sched ((newSpacesClient a m w)\<lparr>calls := cs\<rparr>))
         \<and> StartRun \<in> set cs \<longrightarrow>
          StartRunReturns \<in> set (events ext sched ((newSpacesClient a m w)\<lparr>calls := cs\<rparr>)))"
proof -
  let ?init = "(newSpacesClient a m w)\<lparr>calls := cs\<rparr>"
  let ?es = "events ext sched ?init"
  let ?s = "outcome ext sched ?init"
  have ex: "exec ext sched ?init = Some (?es, ?s)" using assms by (rule runs_exec)
  have inv0: "pool_inv ?init" by (rule newSpacesClient_inv)
  have inv: "pool_inv ?s" using exec_inv [OF ex inv0] .
  have 1: "method (startRun_request ext c) = ''POST''"
    "url (startRun_request ext c) = ''/v0/spaces/'' @ spaceID (rsm c) @ ''/runs''"
    "makeURL (startRun_request ext c) = None"
    by (simp_all add: startRun_request_def)
  have 2: "start_call ext StartRun s1
        = Some (Enqueue (startRun_request ext (client s1)),
                s1\<lparr>caller := StartRun_send (startRun_request ext (client s1))\<rparr>)"
    by (simp add: start_call_def Let_def)
  have "created (run (client ?init)) = Open" by (simp add: newSpacesClient_def)
  then have 3: "returns_after_signal False ?es"
    using exec_returns_after_signal [OF ex inv0] by simp
  have 4: "created (run (client ?s)) = Closed" if r: "StartRunReturns \<in> set ?es"
  proof -
    from returns_after_signal_event [OF 3 r] obtain j where j: "Signal j \<in> set ?es" by blast
    have "gate_rel Shut ?init" by (simp add: newSpacesClient_def)
    from exec_gate [OF ex inv0 this] obtain g where
      g: "gate_run Shut ?es = Some g" "gate_rel g ?s" by blast
    from gate_run_signal [OF g(1) j] obtain i q where "g = Signalled i q" by blast
    then show ?thesis using g(2) by simp
  qed
  have 5: "blocked ext ?s Caller"
    if "caller ?s = StartRun_wait \<and> created (run (client ?s)) = Open"
    using that by (simp add: blocked_def step_def caller_step_def)
  have 6: "length sched \<le> cost ?init" using exec_cost [OF ex] by simp
  have 7: "finished ?s" if h: "stuck ext ?s \<and> panic ?s = None"
  proof -
    from h have st: "stuck ext ?s" and p: "panic ?s = None" by simp_all
    show ?thesis using no_deadlock [OF inv st p] .
  qed
  have 8: "StartRunReturns \<in> set ?es" if "finished ?s \<and> StartRun \<in> set cs"
    by (rule exec_startRun_returns [OF ex]) (use that in simp_all)
  show ?thesis using 1 2 3 4 5 6 7 8 by blast
qed

theorem startRun_returns_after_signal_witness:
  "runs sample_ext session_schedule (boot failing session)
   \<and> returns_after_signal False (events sample_ext session_schedule (boot failing session))
   \<and> StartRunReturns \<in> set (events sample_ext session_schedule (boot failing session))
   \<and> created (run (client (outcome sample_ext session_schedule (boot failing session)))) = Closed
   \<and> finished (outcome sample_ext session_schedule (boot failing session))
   \<and> url (startRun_request sample_ext (client (boot failing session))) = ''/v0/spaces/space_1/runs''"
proof -
  let ?es = "events sample_ext session_schedule (boot failing session)"
  let ?s = "outcome sample_ext session_schedule (boot failing session)"
  let ?c = "client (boot failing session)"
  have eq: "(newSpacesClient failing sample_meta 0)\<lparr>calls := session\<rparr> = boot failing session"
    by (simp add: boot_def)
  have r: "runs sample_ext session_schedule (boot failing session)"
    using session_facts by simp
  have st: "stuck sample_ext ?s"
    using session_facts by (intro stuck_returned [of _ 8]) simp_all
  have p: "panic ?s = None" using session_facts by simp
  have sp: "spaceID (rsm ?c) = ''space_1''" by (simp add: sample_defs)
  have sr: "StartRun \<in> set session" by (simp add: session_def)
  note T = startRun_returns_after_signal [where a = failing and m = sample_meta and w = 0
      and cs = session and sched = session_schedule and ext = sample_ext and c = ?c,
      unfolded eq, OF r]
  from T have 1: "returns_after_signal False ?es" by blast
  from T st p have 2: "finished ?s" by blast
  from T 2 sr have 3: "StartRunReturns \<in> set ?es" by blast
  from T 3 have 4: "created (run (client ?s)) = Closed" by blast
  from T have "url (startRun_request sample_ext ?c) = ''/v0/spaces/'' @ spaceID (rsm ?c) @ ''/runs''"
    by blast
  then have 5: "url (startRun_request sample_ext ?c) = ''/v0/spaces/space_1/runs''"
    unfolding sp by simp
  from r 1 3 4 2 5 show ?thesis by (intro conjI)
qed







end
